theory Spec2Isabelle
  imports Complex_Main "HOL-Library.Char_ord" "HOL-Library.Log_Nat" "HOL-Library.Multiset"
begin

section \<open>Time values\<close>

text \<open>
  A Go \<open>time.Time\<close> is modelled by its instant, in nanoseconds since the Unix epoch;
  \<open>Before\<close> compares instants. A \<open>time.Duration\<close> is a signed 64-bit count of
  nanoseconds, and \<open>Time.Sub\<close> saturates at the smallest and largest duration.
\<close>

type_synonym gotime = int

definition Before :: "gotime \<Rightarrow> gotime \<Rightarrow> bool" where
  "Before t u = (t < u)"

definition minDuration :: int where
  "minDuration = - (2 ^ 63)"

definition maxDuration :: int where
  "maxDuration = 2 ^ 63 - 1"

definition Second :: int where
  "Second = 1000000000"

definition Hour :: int where
  "Hour = 3600 * Second"

definition Sub :: "gotime \<Rightarrow> gotime \<Rightarrow> int" where
  "Sub t u = (let d = t - u in
     if d < minDuration then minDuration else if maxDuration < d then maxDuration else d)"

text \<open>Negation of a 64-bit duration: the smallest value is its own negation.\<close>

definition neg_duration :: "int \<Rightarrow> int" where
  "neg_duration d = (if d = minDuration then minDuration else - d)"

definition absTimeDiff :: "gotime \<Rightarrow> gotime \<Rightarrow> int" where
  "absTimeDiff t1 t2 = (let diff = Sub t1 t2 in if diff < 0 then neg_duration diff else diff)"

section \<open>Machine numbers\<close>

text \<open>
  A Go \<open>int\<close> is a signed 64-bit integer on the platforms the server is built for;
  \<open>wrap64\<close> is the wrap-around of its arithmetic. Integer division truncates towards
  zero (\<open>quot\<close>), and the remainder \<open>rem\<close> has the sign of the dividend.
\<close>

definition wrap64 :: "int \<Rightarrow> int" where
  "wrap64 n = (n + 2 ^ 63) mod 2 ^ 64 - 2 ^ 63"

definition quot :: "int \<Rightarrow> int \<Rightarrow> int" where
  "quot a b = sgn a * sgn b * (\<bar>a\<bar> div \<bar>b\<bar>)"

definition rem :: "int \<Rightarrow> int \<Rightarrow> int" where
  "rem a b = a - b * quot a b"

text \<open>
  A \<open>float64\<close> is modelled by the real number it stands for. Every operation gives the
  exact result rounded to the nearest number with a 53-bit significand, ties to the even
  significand (\<open>round_f64\<close>). \<open>exponent x\<close> is the \<open>e\<close> with
  \<open>2 ^ e \<le> x < 2 ^ (e + 1)\<close>, for positive \<open>x\<close>. The exponent range of a
  \<open>float64\<close> is not modelled: the values computed here, from 64-bit integers and
  durations, stay far inside it. Infinities and NaN arise only from a division by zero,
  which is a case of its own where it can happen.
\<close>

definition exponent :: "real \<Rightarrow> int" where
  "exponent x = (if 1 \<le> x then bitlen \<lfloor>x\<rfloor> - 1 else - bitlen (\<lceil>1 / x\<rceil> - 1))"

definition round_even :: "real \<Rightarrow> int" where
  "round_even q =
     (let n = \<lfloor>q\<rfloor>; r = q - real_of_int n
      in if r < 1 / 2 then n else if 1 / 2 < r then n + 1 else if even n then n else n + 1)"

definition round_f64 :: "real \<Rightarrow> real" where
  "round_f64 x =
     (if x = 0 then 0
      else let scale = 2 powi (exponent \<bar>x\<bar> - 52)
           in sgn x * real_of_int (round_even (\<bar>x\<bar> / scale)) * scale)"

definition f64_add :: "real \<Rightarrow> real \<Rightarrow> real" where
  "f64_add a b = round_f64 (a + b)"

definition f64_mul :: "real \<Rightarrow> real \<Rightarrow> real" where
  "f64_mul a b = round_f64 (a * b)"

definition f64_div :: "real \<Rightarrow> real \<Rightarrow> real" where
  "f64_div a b = round_f64 (a / b)"

text \<open>
  The conversion \<open>float64(n)\<close> of an integer, on integers: an integer of more than 53
  bits is rounded to 53 significant bits, ties to even. \<open>json.Unmarshal\<close> into an
  \<open>interface{}\<close> reads every number as a \<open>float64\<close> in this way (integers too
  large for a \<open>float64\<close> do not arise from an \<open>int64\<close>).
\<close>

definition float64_of_int :: "int \<Rightarrow> int" where
  "float64_of_int n =
     (let a = \<bar>n\<bar>; bits = bitlen a in
      if bits \<le> 53 then n
      else
        let sh = nat (bits - 53); q = a div 2 ^ sh; r = a mod 2 ^ sh; half = 2 ^ (sh - 1);
            q' = (if half < r \<or> (r = half \<and> odd q) then q + 1 else q)
        in sgn n * (q' * 2 ^ sh))"

definition f64 :: "int \<Rightarrow> real" where
  "f64 n = real_of_int (float64_of_int n)"

text \<open>
  The conversions \<open>int(v)\<close> and \<open>int64(v)\<close> of a \<open>float64\<close> truncate towards
  zero; outside the range of \<open>int64\<close>, and for an infinity or NaN, Go leaves the result
  to the implementation (the smallest \<open>int64\<close> on amd64).
\<close>

definition trunc_real :: "real \<Rightarrow> int" where
  "trunc_real r = (if 0 \<le> r then \<lfloor>r\<rfloor> else \<lceil>r\<rceil>)"

definition int64_of_float64 :: "real \<Rightarrow> int" where
  "int64_of_float64 v =
     (if - (2 ^ 63) \<le> trunc_real v \<and> trunc_real v < 2 ^ 63 then trunc_real v else - (2 ^ 63))"

section \<open>Sessions (package models)\<close>

datatype SyncStatus = StatusWaiting | StatusReady | StatusSyncing | StatusCompleted | StatusError

text \<open>
  The counters are Go \<open>int\<close>s, modelled as integers. \<open>Uploaded\<close> and \<open>Skipped\<close>
  start at 0 and grow by one per upload; \<open>Total\<close> is the number the client sends. The
  arithmetic of \<open>GetProgress\<close> and \<open>GetEstimatedTimeRemaining\<close> on them wraps around
  at 64 bits.
\<close>

record Session =
  Token :: string
  Status :: SyncStatus
  Total :: int
  Uploaded :: int
  Skipped :: int
  StartTime :: gotime
  LastUpdate :: gotime
  CurrentFile :: string
  Errors :: "string list"

definition NewSession :: "string \<Rightarrow> gotime \<Rightarrow> Session" where
  "NewSession token now =
     \<lparr>Token = token, Status = StatusWaiting, Total = 0, Uploaded = 0, Skipped = 0,
      StartTime = now, LastUpdate = now, CurrentFile = [], Errors = []\<rparr>"

definition Update_Session :: "gotime \<Rightarrow> Session \<Rightarrow> Session" where
  "Update_Session now s = s\<lparr>LastUpdate := now\<rparr>"

text \<open>
  \<open>GetProgress\<close> computes \<open>float64(Uploaded+Skipped) / float64(Total) * 100\<close>: an
  integer addition, two conversions, a division and a multiplication, each rounded.
\<close>

definition GetProgress :: "Session \<Rightarrow> real" where
  "GetProgress s =
     (if Total s = 0 then 0
      else f64_mul (f64_div (f64 (wrap64 (Uploaded s + Skipped s))) (f64 (Total s))) 100)"

text \<open>
  \<open>Duration.Seconds\<close> is \<open>float64(d / Second) + float64(d % Second) / 1e9\<close>.
\<close>

definition Seconds :: "int \<Rightarrow> real" where
  "Seconds d = f64_add (f64 (quot d Second)) (f64_div (f64 (rem d Second)) 1000000000)"

text \<open>
  \<open>GetEstimatedTimeRemaining\<close>; \<open>time.Since\<close> is \<open>Sub\<close> from the current time.
  When \<open>Uploaded + Skipped\<close> is 0 the division is by zero: the average is an infinity
  or NaN, so is the product, and its conversion to \<open>int\<close> is the smallest \<open>int64\<close>
  on amd64.
\<close>

definition GetEstimatedTimeRemaining :: "gotime \<Rightarrow> Session \<Rightarrow> int" where
  "GetEstimatedTimeRemaining now s =
     (if Uploaded s = 0 then 0
      else
        let elapsed = Seconds (Sub now (StartTime s));
            files = wrap64 (Uploaded s + Skipped s)
        in if files = 0 then - (2 ^ 63)
           else
             let avgTimePerFile = f64_div elapsed (f64 files);
                 remaining = f64_mul (f64 (wrap64 (wrap64 (Total s - Uploaded s) - Skipped s)))
                               avgTimePerFile
             in int64_of_float64 remaining)"

section \<open>The session store (storage/session_store.go)\<close>

type_synonym sessions = "string \<rightharpoonup> Session"

definition Create :: "string \<Rightarrow> gotime \<Rightarrow> sessions \<Rightarrow> sessions" where
  "Create token now ss = ss(token \<mapsto> NewSession token now)"

definition Get :: "string \<Rightarrow> sessions \<Rightarrow> Session option" where
  "Get token ss = ss token"

text \<open>
  \<open>Update\<close> runs the updater on the stored session and then stamps the last-activity
  time; it reports whether the token was known.
\<close>

definition Update :: "string \<Rightarrow> (Session \<Rightarrow> Session) \<Rightarrow> gotime \<Rightarrow> sessions \<Rightarrow> bool \<times> sessions" where
  "Update token updater now ss =
     (case ss token of
        None \<Rightarrow> (False, ss)
      | Some session \<Rightarrow> (True, ss(token \<mapsto> Update_Session now (updater session))))"

definition Delete :: "string \<Rightarrow> sessions \<Rightarrow> sessions" where
  "Delete token ss = ss(token := None)"

text \<open>One tick of the expiry sweep.\<close>

definition cleanup_tick :: "gotime \<Rightarrow> sessions \<Rightarrow> sessions" where
  "cleanup_tick now ss =
     (\<lambda>token. case ss token of
        None \<Rightarrow> None
      | Some session \<Rightarrow> if Hour < Sub now (LastUpdate session) then None else Some session)"

text \<open>The updaters that the handlers pass to \<open>Update\<close>.\<close>

definition init_updater :: "int \<Rightarrow> gotime \<Rightarrow> Session \<Rightarrow> Session" where
  "init_updater reqTotal now session =
     session\<lparr>Total := reqTotal, Status := StatusReady, StartTime := now\<rparr>"

definition duplicate_updater :: "string \<Rightarrow> Session \<Rightarrow> Session" where
  "duplicate_updater originalName session =
     session\<lparr>Skipped := Skipped session + 1, Status := StatusSyncing,
             CurrentFile := originalName\<rparr>"

definition uploaded_updater :: "string \<Rightarrow> Session \<Rightarrow> Session" where
  "uploaded_updater originalName session =
     (let s1 = session\<lparr>Uploaded := Uploaded session + 1, Status := StatusSyncing,
                       CurrentFile := originalName\<rparr>
      in if Total s1 \<le> Uploaded s1 + Skipped s1 then s1\<lparr>Status := StatusCompleted\<rparr> else s1)"

definition error_updater :: "string \<Rightarrow> Session \<Rightarrow> Session" where
  "error_updater msg session = session\<lparr>Errors := Errors session @ [msg]\<rparr>"

section \<open>Identifier normalisation (storage/indexer.go)\<close>

text \<open>
  \<open>NormalizeCounterNumber\<close> works on the runes of its argument, so an identifier is
  modelled as the list of runes that \<open>strings.Map\<close> iterates over (a byte that is not
  valid UTF-8 is the rune \<open>U+FFFD\<close> there). \<open>strings.ToLower\<close> maps \<open>unicode.ToLower\<close>
  over the runes: for an ASCII rune that is the arithmetic below, for any other rune it
  is Unicode's case table, which is a parameter of the model. \<open>strings.Map\<close> drops a
  rune that its mapping sends to a negative value.
\<close>

type_synonym rune = int
type_synonym runes = "rune list"

definition unicode_ToLower :: "(rune \<Rightarrow> rune) \<Rightarrow> rune \<Rightarrow> rune" where
  "unicode_ToLower caseTable r =
     (if r \<le> 127 then (if 65 \<le> r \<and> r \<le> 90 then r + 32 else r) else caseTable r)"

definition strings_ToLower :: "(rune \<Rightarrow> rune) \<Rightarrow> runes \<Rightarrow> runes" where
  "strings_ToLower caseTable s = map (unicode_ToLower caseTable) s"

definition strings_Map :: "(rune \<Rightarrow> rune) \<Rightarrow> runes \<Rightarrow> runes" where
  "strings_Map mapping s = filter (\<lambda>r. 0 \<le> r) (map mapping s)"

text \<open>
  The mapping of \<open>NormalizeCounterNumber\<close>: \<open>'a'\<close> is 97, \<open>'z'\<close> 122, \<open>'0'\<close> 48,
  \<open>'9'\<close> 57, Cyrillic small a is \<open>U+0430\<close> (1072), small ya \<open>U+044F\<close> (1103) and
  small io \<open>U+0451\<close> (1105).
\<close>

definition keep_rune :: "rune \<Rightarrow> rune" where
  "keep_rune r =
     (if (97 \<le> r \<and> r \<le> 122) \<or> (48 \<le> r \<and> r \<le> 57) \<or> (1072 \<le> r \<and> r \<le> 1103) \<or> r = 1105
      then r else - 1)"

definition NormalizeCounterNumber :: "(rune \<Rightarrow> rune) \<Rightarrow> runes \<Rightarrow> runes" where
  "NormalizeCounterNumber caseTable counterNumber =
     strings_Map keep_rune (strings_ToLower caseTable counterNumber)"

text \<open>
  The rows of Unicode's case table for the Cyrillic capitals \<open>U+0400\<close> to \<open>U+042F\<close>;
  every other rune is left as it is. It stands for the table in the examples.
\<close>

definition cyrillic_lower :: "rune \<Rightarrow> rune" where
  "cyrillic_lower r =
     (if 1040 \<le> r \<and> r \<le> 1071 then r + 32
      else if 1024 \<le> r \<and> r \<le> 1039 then r + 80 else r)"

section \<open>The photo index (storage/indexer.go)\<close>

text \<open>
  Paths, hashes and comments are Go strings, modelled as byte strings. \<open>Size\<close> is an
  \<open>int64\<close>; it is the length of an upload, modelled as an unbounded integer.
\<close>

record PhotoInfo =
  Path :: string
  FullPath :: string
  Date :: gotime
  Size :: int
  Hash :: string
  UserComment :: string

record Indexer =
  indexDir :: string
  index :: "runes \<rightharpoonup> PhotoInfo list"

subsection \<open>The JSON file\<close>

text \<open>
  The dynamic types that a Go \<open>interface{}\<close> holds in \<open>saveIndex\<close> (strings and
  \<open>int64\<close>) and after \<open>json.Unmarshal\<close> (strings and \<open>float64\<close>; every other value
  is \<open>IOther\<close>, and a missing key is a nil interface, here \<open>None\<close> of the map).
\<close>

datatype iface = IString string | IInt64 int | IInt int | IFloat64 real | IOther

text \<open>
  The JSON text of the file, as abstract syntax: an object from identifier to an array of
  objects, whose values are strings, integer numbers or anything else.
\<close>

datatype jvalue = JStr string | JNum int | JOther

type_synonym jdoc = "runes \<rightharpoonup> (string \<rightharpoonup> jvalue) list"

datatype indexfile = NoFile | Unreadable | Unparsable | JsonDoc jdoc

record disk =
  indexFile :: indexfile
  writable :: bool

text \<open>
  The libraries the index relies on: Unicode's case table beyond ASCII, and the
  \<open>time.RFC3339\<close> layout of \<open>Time.Format\<close> and \<open>time.Parse\<close>.
\<close>

record golib =
  caseTable :: "rune \<Rightarrow> rune"
  Format_RFC3339 :: "gotime \<Rightarrow> string"
  Parse_RFC3339 :: "string \<Rightarrow> gotime option"

text \<open>
  \<open>encoding/json\<close> writes a Go string as valid UTF-8: every byte that does not start a
  well-formed UTF-8 sequence becomes the replacement character \<open>U+FFFD\<close> (bytes
  \<open>EF BF BD\<close>). \<open>utf8_len\<close> is the length of the well-formed sequence at the head of
  a string, 0 when there is none.
\<close>

definition is_cont :: "char \<Rightarrow> bool" where
  "is_cont c = (CHR 0x80 \<le> c \<and> c \<le> CHR 0xBF)"

fun utf8_len :: "string \<Rightarrow> nat" where
  "utf8_len [] = 0"
| "utf8_len (c # cs) =
     (if c < CHR 0x80 then 1
      else if CHR 0xC2 \<le> c \<and> c \<le> CHR 0xDF then
        (case cs of c1 # _ \<Rightarrow> if is_cont c1 then 2 else 0 | _ \<Rightarrow> 0)
      else if CHR 0xE0 \<le> c \<and> c \<le> CHR 0xEF then
        (case cs of
           c1 # c2 # _ \<Rightarrow>
             if is_cont c1 \<and> is_cont c2 \<and> (c = CHR 0xE0 \<longrightarrow> CHR 0xA0 \<le> c1)
                \<and> (c = CHR 0xED \<longrightarrow> c1 \<le> CHR 0x9F)
             then 3 else 0
         | _ \<Rightarrow> 0)
      else if CHR 0xF0 \<le> c \<and> c \<le> CHR 0xF4 then
        (case cs of
           c1 # c2 # c3 # _ \<Rightarrow>
             if is_cont c1 \<and> is_cont c2 \<and> is_cont c3 \<and> (c = CHR 0xF0 \<longrightarrow> CHR 0x90 \<le> c1)
                \<and> (c = CHR 0xF4 \<longrightarrow> c1 \<le> CHR 0x8F)
             then 4 else 0
         | _ \<Rightarrow> 0)
      else 0)"

function utf8_coerce :: "string \<Rightarrow> string" where
  "utf8_coerce s =
     (if s = [] then []
      else if utf8_len s = 0 then [CHR 0xEF, CHR 0xBF, CHR 0xBD] @ utf8_coerce (tl s)
      else take (utf8_len s) s @ utf8_coerce (drop (utf8_len s) s))"
  by pat_completeness auto
termination
  by (relation "measure length") auto

declare utf8_coerce.simps [simp del]

definition json_Marshal_value :: "iface \<Rightarrow> jvalue" where
  "json_Marshal_value v =
     (case v of
        IString s \<Rightarrow> JStr (utf8_coerce s)
      | IInt64 n \<Rightarrow> JNum n
      | IInt n \<Rightarrow> JNum n
      | _ \<Rightarrow> JOther)"

definition json_Unmarshal_value :: "jvalue \<Rightarrow> iface" where
  "json_Unmarshal_value j =
     (case j of
        JStr s \<Rightarrow> IString s
      | JNum n \<Rightarrow> IFloat64 (real_of_int (float64_of_int n))
      | JOther \<Rightarrow> IOther)"

definition json_Marshal :: "(runes \<rightharpoonup> (string \<rightharpoonup> iface) list) \<Rightarrow> jdoc" where
  "json_Marshal indexData =
     (\<lambda>counter. map_option (map (\<lambda>photoMap key. map_option json_Marshal_value (photoMap key)))
        (indexData counter))"

definition json_Unmarshal :: "jdoc \<Rightarrow> (runes \<rightharpoonup> (string \<rightharpoonup> iface) list)" where
  "json_Unmarshal doc =
     (\<lambda>counter. map_option (map (\<lambda>obj key. map_option json_Unmarshal_value (obj key)))
        (doc counter))"

definition getString :: "(string \<rightharpoonup> iface) \<Rightarrow> string \<Rightarrow> string" where
  "getString m key = (case m key of Some (IString val) \<Rightarrow> val | _ \<Rightarrow> [])"

definition getInt64 :: "(string \<rightharpoonup> iface) \<Rightarrow> string \<Rightarrow> int" where
  "getInt64 m key =
     (case m key of
        Some (IInt64 v) \<Rightarrow> v
      | Some (IInt v) \<Rightarrow> v
      | Some (IFloat64 v) \<Rightarrow> int64_of_float64 v
      | _ \<Rightarrow> 0)"

definition photoMap_of :: "golib \<Rightarrow> PhotoInfo \<Rightarrow> (string \<rightharpoonup> iface)" where
  "photoMap_of lib photo =
     (let photoMap = [''path'' \<mapsto> IString (Path photo),
                      ''fullPath'' \<mapsto> IString (FullPath photo),
                      ''date'' \<mapsto> IString (Format_RFC3339 lib (Date photo)),
                      ''size'' \<mapsto> IInt64 (Size photo),
                      ''hash'' \<mapsto> IString (Hash photo)]
      in if UserComment photo \<noteq> [] then photoMap(''userComment'' \<mapsto> IString (UserComment photo))
         else photoMap)"

text \<open>
  \<open>saveIndex\<close>: \<open>json.MarshalIndent\<close> cannot fail on strings and integers, so the only
  error is the one of \<open>os.WriteFile\<close>. A failed write leaves the file as it was in the
  model.
\<close>

definition saveIndex :: "golib \<Rightarrow> Indexer \<Rightarrow> disk \<Rightarrow> string option \<times> disk" where
  "saveIndex lib idx d =
     (let indexData = (\<lambda>counter. map_option (map (photoMap_of lib)) (index idx counter));
          data = json_Marshal indexData
      in if writable d then (None, d\<lparr>indexFile := JsonDoc data\<rparr>)
         else (Some ''failed to save index'', d))"

definition photo_of :: "golib \<Rightarrow> gotime \<Rightarrow> (string \<rightharpoonup> iface) \<Rightarrow> PhotoInfo" where
  "photo_of lib now photoData =
     \<lparr>Path = getString photoData ''path'',
      FullPath = getString photoData ''fullPath'',
      Date = (case photoData ''date'' of
                Some (IString dateStr) \<Rightarrow>
                  (case Parse_RFC3339 lib dateStr of Some parsed \<Rightarrow> parsed | None \<Rightarrow> now)
              | _ \<Rightarrow> now),
      Size = getInt64 photoData ''size'',
      Hash = getString photoData ''hash'',
      UserComment = getString photoData ''userComment''\<rparr>"

definition loadIndex :: "golib \<Rightarrow> gotime \<Rightarrow> disk \<Rightarrow> Indexer \<Rightarrow> Indexer" where
  "loadIndex lib now d idx =
     (case indexFile d of
        JsonDoc data \<Rightarrow>
          (let indexData = json_Unmarshal data
           in idx\<lparr>index := (\<lambda>counter. case indexData counter of
                                None \<Rightarrow> index idx counter
                              | Some photosData \<Rightarrow> Some (map (photo_of lib now) photosData))\<rparr>)
      | _ \<Rightarrow> idx)"

definition NewIndexer :: "golib \<Rightarrow> gotime \<Rightarrow> disk \<Rightarrow> string \<Rightarrow> Indexer" where
  "NewIndexer lib now d dir = loadIndex lib now d \<lparr>indexDir = dir, index = Map.empty\<rparr>"

subsection \<open>Adding and reading photos\<close>

text \<open>
  The re-sort of \<open>AddPhoto\<close>: for every \<open>i\<close>, every later \<open>j\<close> whose date is after the
  one at \<open>i\<close> is exchanged with it.
\<close>

definition swap :: "'a list \<Rightarrow> nat \<Rightarrow> nat \<Rightarrow> 'a list" where
  "swap xs i j = xs[i := xs ! j, j := xs ! i]"

function sort_inner :: "PhotoInfo list \<Rightarrow> nat \<Rightarrow> nat \<Rightarrow> PhotoInfo list" where
  "sort_inner photos i j =
     (if j < length photos then
        sort_inner (if Before (Date (photos ! i)) (Date (photos ! j)) then swap photos i j
                    else photos) i (j + 1)
      else photos)"
  by pat_completeness auto
termination
  by (relation "measure (\<lambda>(photos, i, j). length photos - j)") (auto simp: swap_def)

declare sort_inner.simps [simp del]

lemma length_sort_inner: "length (sort_inner photos i j) = length photos"
proof (induction photos i j rule: sort_inner.induct)
  case (1 photos i j)
  show ?case
  proof (cases "j < length photos")
    case True
    with 1 show ?thesis by (subst sort_inner.simps) (simp add: swap_def)
  next
    case False
    then show ?thesis by (subst sort_inner.simps) simp
  qed
qed

function sort_outer :: "PhotoInfo list \<Rightarrow> nat \<Rightarrow> PhotoInfo list" where
  "sort_outer photos i =
     (if i + 1 < length photos then sort_outer (sort_inner photos i (i + 1)) (i + 1)
      else photos)"
  by pat_completeness auto
termination
  by (relation "measure (\<lambda>(photos, i). length photos - i)") (auto simp: length_sort_inner)

declare sort_outer.simps [simp del]

definition GetPhotosByCounter :: "golib \<Rightarrow> Indexer \<Rightarrow> runes \<Rightarrow> PhotoInfo list" where
  "GetPhotosByCounter lib idx counterNumber =
     (let normalizedCounter = NormalizeCounterNumber (caseTable lib) counterNumber
      in case index idx normalizedCounter of None \<Rightarrow> [] | Some photos \<Rightarrow> photos)"

definition GetAllCounters :: "Indexer \<Rightarrow> runes set" where
  "GetAllCounters idx = dom (index idx)"

definition AddPhoto ::
  "golib \<Rightarrow> runes \<Rightarrow> string \<Rightarrow> string \<Rightarrow> gotime \<Rightarrow> int \<Rightarrow> string \<Rightarrow> string \<Rightarrow>
   Indexer \<times> disk \<Rightarrow> string option \<times> Indexer \<times> disk" where
  "AddPhoto lib counterNumber relPath fullPath date sz hash userComment st =
     (let idx = fst st; d = snd st;
          normalizedCounter = NormalizeCounterNumber (caseTable lib) counterNumber;
          bucket = (case index idx normalizedCounter of None \<Rightarrow> [] | Some photos \<Rightarrow> photos);
          idx1 = idx\<lparr>index := (index idx)(normalizedCounter \<mapsto> bucket)\<rparr>
      in if relPath \<in> set (map Path bucket) then (None, idx1, d)
         else
           let photo = \<lparr>Path = relPath, FullPath = fullPath, Date = date, Size = sz,
                        Hash = hash, UserComment = userComment\<rparr>;
               photos = sort_outer (bucket @ [photo]) 0;
               idx2 = idx1\<lparr>index := (index idx1)(normalizedCounter \<mapsto> photos)\<rparr>;
               saved = saveIndex lib idx2 d
           in (fst saved, idx2, snd saved))"

section \<open>The duplicate detector (storage/duplicate_check.go)\<close>

record FileHashInfo =
  fhHash :: string
  fhSize :: int
  fhDate :: gotime
  fhPath :: string

type_synonym hashDB = "string \<rightharpoonup> FileHashInfo"

definition NewDuplicateCheck :: hashDB where
  "NewDuplicateCheck = Map.empty"

definition unknown :: runes where
  "unknown = map of_char ''unknown''"

text \<open>The loop of the second tier over the photos of one identifier.\<close>

fun tier2 :: "string \<Rightarrow> gotime \<Rightarrow> PhotoInfo list \<Rightarrow> FileHashInfo option" where
  "tier2 fileHash dateTaken [] = None"
| "tier2 fileHash dateTaken (photo # photos) =
     (if absTimeDiff (Date photo) dateTaken < Second \<and> Hash photo = fileHash
      then Some \<lparr>fhHash = Hash photo, fhSize = Size photo, fhDate = Date photo,
                 fhPath = Path photo\<rparr>
      else tier2 fileHash dateTaken photos)"

definition CheckDuplicate ::
  "golib \<Rightarrow> hashDB \<Rightarrow> string \<Rightarrow> int \<Rightarrow> runes \<Rightarrow> gotime \<Rightarrow> Indexer \<Rightarrow>
   FileHashInfo option \<times> string" where
  "CheckDuplicate lib db fileHash sz counterNumber dateTaken indexer =
     (case db fileHash of
        Some info \<Rightarrow> (Some info, ''hash'')
      | None \<Rightarrow>
          if counterNumber \<noteq> [] \<and> counterNumber \<noteq> unknown then
            (let normalizedCounter = NormalizeCounterNumber (caseTable lib) counterNumber;
                 photos = GetPhotosByCounter lib indexer normalizedCounter
             in case tier2 fileHash dateTaken photos of
                  Some info \<Rightarrow> (Some info, ''counter_and_date'')
                | None \<Rightarrow> (None, []))
          else (None, []))"

definition AddHash :: "string \<Rightarrow> int \<Rightarrow> gotime \<Rightarrow> string \<Rightarrow> hashDB \<Rightarrow> hashDB" where
  "AddHash fileHash sz date path db =
     db(fileHash \<mapsto> \<lparr>fhHash = fileHash, fhSize = sz, fhDate = date, fhPath = path\<rparr>)"

section \<open>The comment scanner (handlers)\<close>

text \<open>
  Image data is a byte string. \<open>containsDigit\<close> and \<open>isOnlyAlphanumeric\<close> range over
  the runes of the candidate; an ASCII byte is always a rune of its own and no other rune
  is an ASCII letter or digit, so both are tests on the bytes.
\<close>

definition isAlphanumeric :: "char \<Rightarrow> bool" where
  "isAlphanumeric b =
     ((CHR ''a'' \<le> b \<and> b \<le> CHR ''z'') \<or> (CHR ''A'' \<le> b \<and> b \<le> CHR ''Z'')
      \<or> (CHR ''0'' \<le> b \<and> b \<le> CHR ''9''))"

definition isCyrillic :: "char \<Rightarrow> bool" where
  "isCyrillic b = ((CHR 0xD0 \<le> b \<and> b \<le> CHR 0xDF) \<or> (CHR 0xE0 \<le> b \<and> b \<le> CHR 0xEF))"

definition isDigit :: "char \<Rightarrow> bool" where
  "isDigit r = (CHR ''0'' \<le> r \<and> r \<le> CHR ''9'')"

definition containsDigit :: "string \<Rightarrow> bool" where
  "containsDigit s = list_ex isDigit s"

definition isOnlyAlphanumeric :: "string \<Rightarrow> bool" where
  "isOnlyAlphanumeric s = list_all isAlphanumeric s"

text \<open>The Go slice expression \<open>s[i:j]\<close>, for \<open>i \<le> j \<le> len(s)\<close>.\<close>

definition slice :: "'a list \<Rightarrow> nat \<Rightarrow> nat \<Rightarrow> 'a list" where
  "slice s i j = take (j - i) (drop i s)"

text \<open>The inner loop of \<open>findUserComment\<close>, which advances \<open>j\<close> to the end of the run.\<close>

function run_end :: "string \<Rightarrow> nat \<Rightarrow> nat" where
  "run_end dataStr j =
     (if j < length dataStr \<and> (isAlphanumeric (dataStr ! j) \<or> isCyrillic (dataStr ! j))
      then run_end dataStr (j + 1) else j)"
  by pat_completeness auto
termination
  by (relation "measure (\<lambda>(dataStr, j). length dataStr - j)") auto

declare run_end.simps [simp del]

lemma run_end_ge: "j \<le> run_end dataStr j"
proof (induction dataStr j rule: run_end.induct)
  case (1 dataStr j)
  show ?case
  proof (cases "j < length dataStr \<and> (isAlphanumeric (dataStr ! j) \<or> isCyrillic (dataStr ! j))")
    case True
    with 1 have "j + 1 \<le> run_end dataStr (j + 1)" by blast
    with True show ?thesis by (subst run_end.simps) simp
  next
    case False
    then show ?thesis by (subst run_end.simps) auto
  qed
qed

text \<open>
  The two loops of \<open>findUserComment\<close>; \<open>None\<close> when the loop ends without a
  \<open>return\<close>. The loop conditions \<open>i < len(dataStr)-10\<close> and \<open>i < len(dataStr)-8\<close>
  are on signed integers.
\<close>

function scan10 :: "string \<Rightarrow> nat \<Rightarrow> string option" where
  "scan10 dataStr i =
     (if i + 10 < length dataStr then
        (if isAlphanumeric (dataStr ! i) then
           (if 10 \<le> run_end dataStr i - i \<and> containsDigit (slice dataStr i (run_end dataStr i))
            then Some (slice dataStr i (run_end dataStr i))
            else scan10 dataStr (run_end dataStr i + 1))
         else scan10 dataStr (i + 1))
      else None)"
  by pat_completeness auto
termination
proof (relation "measure (\<lambda>(dataStr, i). length dataStr - i)")
  show "wf (measure (\<lambda>(dataStr, i). length dataStr - i))" by simp
next
  fix dataStr :: string and i :: nat
  assume "i + 10 < length dataStr"
  moreover have "i \<le> run_end dataStr i" by (rule run_end_ge)
  ultimately show "((dataStr, run_end dataStr i + 1), (dataStr, i))
      \<in> measure (\<lambda>(dataStr, i). length dataStr - i)" by simp
next
  fix dataStr :: string and i :: nat
  assume "i + 10 < length dataStr"
  then show "((dataStr, i + 1), (dataStr, i)) \<in> measure (\<lambda>(dataStr, i). length dataStr - i)"
    by simp
qed

declare scan10.simps [simp del]

function scan8 :: "string \<Rightarrow> nat \<Rightarrow> string option" where
  "scan8 dataStr i =
     (if i + 8 < length dataStr then
        (if isAlphanumeric (dataStr ! i) then
           (if 8 \<le> run_end dataStr i - i \<and> run_end dataStr i - i < 10
               \<and> containsDigit (slice dataStr i (run_end dataStr i))
               \<and> isOnlyAlphanumeric (slice dataStr i (run_end dataStr i))
            then Some (slice dataStr i (run_end dataStr i))
            else scan8 dataStr (run_end dataStr i + 1))
         else scan8 dataStr (i + 1))
      else None)"
  by pat_completeness auto
termination
proof (relation "measure (\<lambda>(dataStr, i). length dataStr - i)")
  show "wf (measure (\<lambda>(dataStr, i). length dataStr - i))" by simp
next
  fix dataStr :: string and i :: nat
  assume "i + 8 < length dataStr"
  moreover have "i \<le> run_end dataStr i" by (rule run_end_ge)
  ultimately show "((dataStr, run_end dataStr i + 1), (dataStr, i))
      \<in> measure (\<lambda>(dataStr, i). length dataStr - i)" by simp
next
  fix dataStr :: string and i :: nat
  assume "i + 8 < length dataStr"
  then show "((dataStr, i + 1), (dataStr, i)) \<in> measure (\<lambda>(dataStr, i). length dataStr - i)"
    by simp
qed

declare scan8.simps [simp del]

definition findUserComment :: "string \<Rightarrow> string" where
  "findUserComment exifData =
     (case scan10 exifData 0 of
        Some candidate \<Rightarrow> candidate
      | None \<Rightarrow> (case scan8 exifData 0 of Some candidate \<Rightarrow> candidate | None \<Rightarrow> []))"

text \<open>\<open>binary.BigEndian.Uint16\<close> of the two bytes at \<open>offset\<close>.\<close>

definition Uint16 :: "string \<Rightarrow> nat \<Rightarrow> nat" where
  "Uint16 data offset = of_char (data ! offset) * 256 + of_char (data ! (offset + 1))"

definition Exif_header :: string where
  "Exif_header = [CHR ''E'', CHR ''x'', CHR ''i'', CHR ''f'', CHR 0x00, CHR 0x00]"

text \<open>
  The result of the scanner: the comment, or the run-time panic of the slice expression
  \<open>data[offset+2:offset+8]\<close> when fewer than \<open>offset+8\<close> bytes are there (the guard
  before it only checks \<open>offset+6\<close>).
\<close>

datatype scan_result = Panic | Comment string

text \<open>
  The segment walk of \<open>extractUserCommentFromEXIF\<close>. Here \<open>offset\<close> is the value at
  the head of the loop; the source adds 2 to it once the marker is read, so its later
  \<open>offset\<close> is \<open>offset + 2\<close> below.
\<close>

function walk :: "string \<Rightarrow> nat \<Rightarrow> scan_result" where
  "walk data offset =
     (if offset + 1 < length data then
        (if data ! offset \<noteq> CHR 0xFF then Comment []
         else if data ! (offset + 1) = CHR 0xFF then walk data (offset + 2)
         else if data ! (offset + 1) = CHR 0xE1 then
           (if length data < offset + 2 + 2 then Comment []
            else if Uint16 data (offset + 2) < 2
                    \<or> length data < offset + 2 + Uint16 data (offset + 2) then Comment []
            else if offset + 2 + 6 \<le> length data then
              (if length data < offset + 2 + 8 then Panic
               else if slice data (offset + 2 + 2) (offset + 2 + 8) = Exif_header
                       \<and> findUserComment
                            (slice data (offset + 2 + 2) (offset + 2 + Uint16 data (offset + 2))) \<noteq> []
               then Comment (findUserComment
                      (slice data (offset + 2 + 2) (offset + 2 + Uint16 data (offset + 2))))
               else walk data (offset + 2 + Uint16 data (offset + 2)))
            else walk data (offset + 2 + Uint16 data (offset + 2)))
         else
           (if length data < offset + 2 + 2 then Comment []
            else if Uint16 data (offset + 2) < 2 then Comment []
            else walk data (offset + 2 + Uint16 data (offset + 2))))
      else Comment [])"
  by pat_completeness auto
termination
  by (relation "measure (\<lambda>(data, offset). length data - offset)") auto

declare walk.simps [simp del]

definition extractUserCommentFromEXIF :: "string \<Rightarrow> scan_result" where
  "extractUserCommentFromEXIF data =
     (if length data < 2 \<or> data ! 0 \<noteq> CHR 0xFF \<or> data ! 1 \<noteq> CHR 0xD8 then Comment []
      else walk data 2)"

definition extractCounterNumberFromEXIF :: "string \<Rightarrow> scan_result" where
  "extractCounterNumberFromEXIF data = extractUserCommentFromEXIF data"

section \<open>The handlers\<close>

text \<open>
  What a handler call takes from outside the core: the libraries, the two clock readings
  (the handler's own \<open>time.Now()\<close> and the one of \<open>Session.Update\<close>), the SHA-256
  hash and the file store of \<open>FileManager\<close> (\<open>SaveFile\<close> gives an error message or the
  relative path; \<open>fullPath_of\<close> joins the base directory and a relative path), and the
  runes of a string read from the image.
\<close>

record env =
  lib :: golib
  now_handler :: gotime
  now_update :: gotime
  CalculateHash :: "string \<Rightarrow> string"
  SaveFile :: "string \<Rightarrow> string \<Rightarrow> gotime \<Rightarrow> string + string"
  fullPath_of :: "string \<Rightarrow> string"
  runes_of :: "string \<Rightarrow> runes"

text \<open>The three stores and the index file.\<close>

record server =
  sessionStore :: sessions
  duplicateCheck :: hashDB
  indexer :: Indexer
  fs :: disk

text \<open>
  The multipart part \<open>photo\<close> of a request: absent, failing to open, failing to read,
  or read into \<open>data\<close>.
\<close>

datatype photo_part = NoPhoto | OpenFails | ReadFails | Photo string

record SyncRequest =
  req_token :: string
  req_photo :: photo_part
  req_counterNumber :: runes
  req_originalName :: string
  req_dateTaken :: string

text \<open>
  The responses: the three error statuses with their message, the success bodies with the
  fields the claims are about, and the panic of the scanner, which ends the handler.
\<close>

datatype response =
    BadRequest string
  | NotFound string
  | InternalServerError string
  | InitOK string
  | SyncDuplicate int int string string
  | SyncSaved int int string
  | HandlerPanic

definition is_error :: "response \<Rightarrow> bool" where
  "is_error r = (case r of BadRequest _ \<Rightarrow> True | NotFound _ \<Rightarrow> True
                 | InternalServerError _ \<Rightarrow> True | _ \<Rightarrow> False)"

definition StartHandler :: "env \<Rightarrow> string \<Rightarrow> server \<Rightarrow> server" where
  "StartHandler e token st = st\<lparr>sessionStore := Create token (now_handler e) (sessionStore st)\<rparr>"

text \<open>\<open>body\<close> is the bound JSON body of the request, \<open>None\<close> when binding fails.\<close>

definition InitHandler :: "env \<Rightarrow> string \<Rightarrow> int option \<Rightarrow> server \<Rightarrow> response \<times> server" where
  "InitHandler e token body st =
     (if token = [] then (BadRequest ''token is required'', st)
      else case body of
        None \<Rightarrow> (BadRequest ''invalid body'', st)
      | Some reqTotal \<Rightarrow>
          (let upd = Update token (init_updater reqTotal (now_handler e)) (now_update e)
                       (sessionStore st)
           in if \<not> fst upd then (NotFound ''session not found'', st)
              else (InitOK token, st\<lparr>sessionStore := snd upd\<rparr>)))"

text \<open>
  The counts of a response are read through the session pointer after the update, so they
  are the updated ones.
\<close>

definition session_counts :: "string \<Rightarrow> sessions \<Rightarrow> int \<times> int" where
  "session_counts token ss =
     (case ss token of None \<Rightarrow> (0, 0) | Some session \<Rightarrow> (Uploaded session, Total session))"

definition SyncHandler :: "env \<Rightarrow> SyncRequest \<Rightarrow> server \<Rightarrow> response \<times> server" where
  "SyncHandler e req st =
     (let token = req_token req in
      if token = [] then (BadRequest ''token is required'', st)
      else case Get token (sessionStore st) of
        None \<Rightarrow> (NotFound ''session not found'', st)
      | Some session \<Rightarrow>
        (case req_photo req of
           NoPhoto \<Rightarrow> (BadRequest ''photo file is required'', st)
         | OpenFails \<Rightarrow> (InternalServerError ''failed to open file'', st)
         | ReadFails \<Rightarrow> (InternalServerError ''failed to read file'', st)
         | Photo data \<Rightarrow>
           (let counterNumber = req_counterNumber req;
                originalName = req_originalName req;
                dateTakenStr = req_dateTaken req;
                dateTaken = (if dateTakenStr \<noteq> [] then
                               (case Parse_RFC3339 (lib e) dateTakenStr of
                                  Some parsed \<Rightarrow> parsed
                                | None \<Rightarrow> now_handler e)
                             else now_handler e);
                fileHash = CalculateHash e data;
                sz = int (length data);
                chk = CheckDuplicate (lib e) (duplicateCheck st) fileHash sz counterNumber
                        dateTaken (indexer st)
            in case fst chk of
                 Some existingFile \<Rightarrow>
                   (let ss = snd (Update token (duplicate_updater originalName) (now_update e)
                                    (sessionStore st))
                    in (SyncDuplicate (fst (session_counts token ss))
                          (snd (session_counts token ss)) (fhPath existingFile) (snd chk),
                        st\<lparr>sessionStore := ss\<rparr>))
               | None \<Rightarrow>
                   (case extractUserCommentFromEXIF data of
                      Panic \<Rightarrow> (HandlerPanic, st)
                    | Comment userComment \<Rightarrow>
                      (let counterNumber1 =
                             (if counterNumber = [] then
                                (if userComment = [] then unknown else runes_of e userComment)
                              else counterNumber)
                       in case SaveFile e originalName data dateTaken of
                            Inl err \<Rightarrow>
                              (InternalServerError ''failed to save file'',
                               st\<lparr>sessionStore :=
                                    snd (Update token (error_updater err) (now_update e)
                                           (sessionStore st))\<rparr>)
                          | Inr relPath \<Rightarrow>
                              (let fullPath = fullPath_of e relPath;
                                   added = AddPhoto (lib e) counterNumber1 relPath fullPath
                                             dateTaken sz fileHash userComment
                                             (indexer st, fs st);
                                   db = AddHash fileHash sz dateTaken relPath (duplicateCheck st);
                                   ss = snd (Update token (uploaded_updater originalName)
                                               (now_update e) (sessionStore st))
                               in (SyncSaved (fst (session_counts token ss))
                                     (snd (session_counts token ss)) relPath,
                                   st\<lparr>sessionStore := ss, duplicateCheck := db,
                                      indexer := fst (snd added), fs := snd (snd added)\<rparr>)))))))"

section \<open>Notions used by the properties\<close>

text \<open>
  A run of duplicate uploads on one session, each with its file name and the time of the
  update: what \<open>Update\<close> does to the session with the updater of the duplicate branch.
\<close>

definition record_duplicates :: "(string \<times> gotime) list \<Rightarrow> Session \<Rightarrow> Session" where
  "record_duplicates events s =
     fold (\<lambda>ev session. Update_Session (snd ev) (duplicate_updater (fst ev) session)) events s"

text \<open>A run of later \<open>AddHash\<close> calls, each given by its four arguments.\<close>

definition AddHashes :: "(string \<times> int \<times> gotime \<times> string) list \<Rightarrow> hashDB \<Rightarrow> hashDB" where
  "AddHashes calls db = fold (\<lambda>(fileHash, sz, date, path). AddHash fileHash sz date path) calls db"

text \<open>The record that \<open>AddPhoto\<close> builds from its arguments.\<close>

definition new_photo :: "string \<Rightarrow> string \<Rightarrow> gotime \<Rightarrow> int \<Rightarrow> string \<Rightarrow> string \<Rightarrow> PhotoInfo" where
  "new_photo relPath fullPath date sz hash userComment =
     \<lparr>Path = relPath, FullPath = fullPath, Date = date, Size = sz, Hash = hash,
      UserComment = userComment\<rparr>"

text \<open>
  One \<open>AddPhoto\<close> call of a sequence: its seven arguments, and whether the index file
  can be written when the call is made.
\<close>

record add_call =
  call_counterNumber :: runes
  call_relPath :: string
  call_fullPath :: string
  call_date :: gotime
  call_size :: int
  call_hash :: string
  call_userComment :: string
  call_writable :: bool

definition apply_call :: "golib \<Rightarrow> add_call \<Rightarrow> Indexer \<times> disk \<Rightarrow> Indexer \<times> disk" where
  "apply_call lb c st =
     snd (AddPhoto lb (call_counterNumber c) (call_relPath c) (call_fullPath c) (call_date c)
            (call_size c) (call_hash c) (call_userComment c)
            (fst st, (snd st)\<lparr>writable := call_writable c\<rparr>))"

definition run_calls :: "golib \<Rightarrow> add_call list \<Rightarrow> Indexer \<times> disk \<Rightarrow> Indexer \<times> disk" where
  "run_calls lb calls st = fold (apply_call lb) calls st"

definition empty_index :: Indexer where
  "empty_index = \<lparr>indexDir = ''idx'', index = Map.empty\<rparr>"

text \<open>
  A bucket is in order when it is sorted by date, newest first, and no two of its records
  have the same relative path.
\<close>

definition bucket_ok :: "PhotoInfo list \<Rightarrow> bool" where
  "bucket_ok photos = (sorted_wrt (\<lambda>p q. Date q \<le> Date p) photos \<and> distinct (map Path photos))"

text \<open>
  The runes the key keeps, as a predicate: the condition of the mapping function in
  \<open>NormalizeCounterNumber\<close>.
\<close>

definition kept_rune :: "rune \<Rightarrow> bool" where
  "kept_rune r =
     ((97 \<le> r \<and> r \<le> 122) \<or> (48 \<le> r \<and> r \<le> 57) \<or> (1072 \<le> r \<and> r \<le> 1103) \<or> r = 1105)"

text \<open>
  Punctuation and separators. In ASCII these are the characters that are neither letters
  nor digits. Beyond ASCII a punctuation or separator character has no case, so the case
  table leaves it as it is, and it is none of the Cyrillic letters of the key: the
  numero sign \<open>U+2116\<close>, the dashes and the quotation marks are of this kind. (So are the
  small letters of other alphabets; the class is wider than punctuation.) Two identifiers
  differ only by case and such characters when they are equal after these are removed and
  the rest is lower-cased.
\<close>

definition ascii_separator :: "rune \<Rightarrow> bool" where
  "ascii_separator r =
     (0 \<le> r \<and> r \<le> 127 \<and> \<not> (48 \<le> r \<and> r \<le> 57) \<and> \<not> (65 \<le> r \<and> r \<le> 90)
      \<and> \<not> (97 \<le> r \<and> r \<le> 122))"

definition separator :: "(rune \<Rightarrow> rune) \<Rightarrow> rune \<Rightarrow> bool" where
  "separator tbl r = (ascii_separator r \<or> (127 < r \<and> tbl r = r \<and> \<not> kept_rune r))"

definition strip_separators :: "(rune \<Rightarrow> rune) \<Rightarrow> runes \<Rightarrow> runes" where
  "strip_separators tbl s = filter (\<lambda>r. \<not> separator tbl r) s"

text \<open>
  A record survives the JSON file when \<open>time.Parse\<close> gives its date back from what
  \<open>Time.Format\<close> wrote, its strings are valid UTF-8, and its size is below \<open>2 ^ 53\<close>
  in magnitude, so that the \<open>float64\<close> read back is exact. \<open>reload\<close> saves an index
  and builds a new indexer from the file.
\<close>

definition survives_json :: "golib \<Rightarrow> PhotoInfo \<Rightarrow> bool" where
  "survives_json lb p =
     (Parse_RFC3339 lb (utf8_coerce (Format_RFC3339 lb (Date p))) = Some (Date p)
      \<and> utf8_coerce (Path p) = Path p \<and> utf8_coerce (FullPath p) = FullPath p
      \<and> utf8_coerce (Hash p) = Hash p \<and> utf8_coerce (UserComment p) = UserComment p
      \<and> \<bar>Size p\<bar> < 2 ^ 53)"

definition reload :: "golib \<Rightarrow> gotime \<Rightarrow> Indexer \<Rightarrow> disk \<Rightarrow> Indexer" where
  "reload lb now idx d = NewIndexer lb now (snd (saveIndex lb idx d)) (indexDir idx)"

text \<open>
  The runs of the scanner. A run begins at an ASCII letter or digit and extends over ASCII
  letters, digits and the bytes \<open>0xD0\<close> to \<open>0xEF\<close> that \<open>isCyrillic\<close> accepts;
  \<open>first_run\<close> is the first run of length at least 10 with a digit and, when there is
  none, the first run of length 8 or 9 of ASCII letters and digits only with a digit.
\<close>

definition isRunByte :: "char \<Rightarrow> bool" where
  "isRunByte b = (isAlphanumeric b \<or> isCyrillic b)"

function runs :: "string \<Rightarrow> string list" where
  "runs [] = []"
| "runs (b # bs) =
     (if isAlphanumeric b then (b # takeWhile isRunByte bs) # runs (dropWhile isRunByte bs)
      else runs bs)"
  by pat_completeness auto
termination
  by (relation "measure length") (auto simp: length_dropWhile_le less_Suc_eq_le)

declare runs.simps [simp del]

definition first_run :: "string \<Rightarrow> string" where
  "first_run s =
     (case find (\<lambda>r. 10 \<le> length r \<and> containsDigit r) (runs s) of
        Some r \<Rightarrow> r
      | None \<Rightarrow>
          (case find (\<lambda>r. 8 \<le> length r \<and> length r < 10 \<and> containsDigit r \<and> isOnlyAlphanumeric r)
                  (runs s) of
             Some r \<Rightarrow> r
           | None \<Rightarrow> []))"








text \<open>
  A JPEG segment: the byte \<open>0xFF\<close>, the marker, the big-endian length of the body
  plus the two length bytes, and the body. \<open>skipped\<close> holds of a segment that the walk
  steps over: its marker is not \<open>0xFF\<close>, its length fits 16 bits, and when it is an APP1
  segment its body has the six bytes of an identifier and, if that is the Exif signature,
  no run of the body qualifies. \<open>stops_walk\<close> holds of the bytes after the last segment
  when the walk ends there: fewer than two bytes, or bytes that do not begin with
  \<open>0xFF\<close> (the entropy-coded data after the start-of-scan segment), or a marker with no
  room for a length after it (the end-of-image marker \<open>FF D9\<close> at the end of the buffer).
\<close>

definition segment :: "char \<Rightarrow> string \<Rightarrow> string" where
  "segment marker body =
     [CHR 0xFF, marker, char_of ((length body + 2) div 256), char_of ((length body + 2) mod 256)]
     @ body"




section \<open>Example inputs\<close>

text \<open>
  A small environment for the examples: the Cyrillic rows of the case table, a clock, a
  stand-in for the hash (the data itself behind a prefix) and a file store that always
  succeeds and names the file as \<open>SaveFile\<close> does when the original name ends in a
  dot and three letters: the time stamp, here 1, goes between the base name and the
  extension.
\<close>

definition example_lib :: golib where
  "example_lib = \<lparr>caseTable = cyrillic_lower, Format_RFC3339 = (\<lambda>t. []),
                  Parse_RFC3339 = (\<lambda>s. None)\<rparr>"

definition example_env :: env where
  "example_env = \<lparr>lib = example_lib, now_handler = 10, now_update = 11,
     CalculateHash = (\<lambda>data. ''sha256:'' @ data),
     SaveFile = (\<lambda>name data date.
       Inr (take (length name - 4) name @ ''_1'' @ drop (length name - 4) name)),
     fullPath_of = (\<lambda>rel. ''/photos/'' @ rel),
     runes_of = map of_char\<rparr>"

definition empty_server :: server where
  "empty_server = \<lparr>sessionStore = Map.empty, duplicateCheck = NewDuplicateCheck,
     indexer = \<lparr>indexDir = ''idx'', index = Map.empty\<rparr>,
     fs = \<lparr>indexFile = NoFile, writable = True\<rparr>\<rparr>"

definition photo_request :: "string \<Rightarrow> SyncRequest" where
  "photo_request data = \<lparr>req_token = ''t1'', req_photo = Photo data, req_counterNumber = [],
     req_originalName = ''a.jpg'', req_dateTaken = []\<rparr>"

text \<open>
  A session \<open>t1\<close> is started and initialised with a total of 2; the same payload is then
  uploaded twice, so the second upload is a duplicate.
\<close>

definition two_uploads :: server where
  "two_uploads =
     snd (SyncHandler example_env (photo_request ''x'')
       (snd (SyncHandler example_env (photo_request ''x'')
         (snd (InitHandler example_env ''t1'' (Some 2)
           (StartHandler example_env ''t1'' empty_server))))))"

text \<open>
  A read-only disk; four calls for the identifier \<open>AB-12\<close>, the last with a path
  that is already there, and the index they build; a server with one session.
\<close>

definition readonly_disk :: disk where
  "readonly_disk = \<lparr>indexFile = NoFile, writable = False\<rparr>"

definition example_call :: "string \<Rightarrow> gotime \<Rightarrow> add_call" where
  "example_call relPath date =
     \<lparr>call_counterNumber = [65, 66, 45, 49, 50], call_relPath = relPath,
      call_fullPath = ''/photos/'' @ relPath, call_date = date, call_size = 100,
      call_hash = ''h'' @ relPath, call_userComment = [], call_writable = True\<rparr>"

definition example_calls :: "add_call list" where
  "example_calls = [example_call ''p1.jpg'' 5, example_call ''p2.jpg'' 9,
                  example_call ''p3.jpg'' 7, example_call ''p1.jpg'' 8]"

definition example_index :: Indexer where
  "example_index = fst (run_calls example_lib example_calls
                          (empty_index, \<lparr>indexFile = NoFile, writable = True\<rparr>))"

definition started :: server where
  "started = StartHandler example_env ''t1'' empty_server"

text \<open>
  The instant 2024-01-01T00:00:00Z, and the values of \<open>Time.Format\<close> and
  \<open>time.Parse\<close> at this one date. \<open>spec_index\<close> is the bucket of the specification's
  example; \<open>lossy_index\<close> has a comment with the byte \<open>0xD0\<close>, as the scanner can
  return it, and a size of \<open>2 ^ 53 + 1\<close>.
\<close>

definition jan1 :: gotime where
  "jan1 = 1704067200000000000"

definition jan1_lib :: golib where
  "jan1_lib = \<lparr>caseTable = cyrillic_lower,
     Format_RFC3339 = (\<lambda>t. ''2024-01-01T00:00:00Z''),
     Parse_RFC3339 = (\<lambda>s. if s = ''2024-01-01T00:00:00Z'' then Some jan1 else None)\<rparr>"

definition abc123 :: runes where
  "abc123 = [97, 98, 99, 49, 50, 51]"

definition spec_photo :: PhotoInfo where
  "spec_photo = \<lparr>Path = ''p1.jpg'', FullPath = ''/photos/p1.jpg'', Date = jan1, Size = 100,
     Hash = ''h1'', UserComment = []\<rparr>"

definition spec_index :: Indexer where
  "spec_index = \<lparr>indexDir = ''idx'', index = [abc123 \<mapsto> [spec_photo]]\<rparr>"

definition lossy_index :: Indexer where
  "lossy_index = \<lparr>indexDir = ''idx'', index = [abc123 \<mapsto>
     [\<lparr>Path = ''p1.jpg'', FullPath = ''/photos/p1.jpg'', Date = jan1, Size = 100, Hash = ''h1'',
       UserComment = CHR ''N'' # CHR 0xD0 # ''12345678''\<rparr>,
      \<lparr>Path = ''p2.jpg'', FullPath = ''/photos/p2.jpg'', Date = jan1, Size = 9007199254740993,
       Hash = ''h2'', UserComment = []\<rparr>]]\<rparr>"

definition writable_disk :: disk where
  "writable_disk = \<lparr>indexFile = NoFile, writable = True\<rparr>"






definition session_29_of_100 :: Session where
  "session_29_of_100 = (NewSession ''t1'' 0)\<lparr>Total := 100, Uploaded := 29\<rparr>"

section \<open>Session progress\<close>

lemma record_duplicates_Uploaded: "Uploaded (record_duplicates events s) = Uploaded s"
  unfolding record_duplicates_def
  by (induction events arbitrary: s) (simp_all add: duplicate_updater_def Update_Session_def)

lemma float64_exact: "\<bar>n\<bar> < 2 ^ 53 \<Longrightarrow> float64_of_int n = n"
proof -
  assume "\<bar>n\<bar> < 2 ^ 53"
  then have "nat \<bar>n\<bar> < 2 ^ 53" by (simp add: nat_less_iff)
  then have "floorlog 2 (nat \<bar>n\<bar>) \<le> 53" by (intro floorlog_leI) simp_all
  then have "bitlen \<bar>n\<bar> \<le> 53" by (simp add: bitlen_def)
  then show ?thesis by (simp add: float64_of_int_def Let_def)
qed

lemma int64_of_exact: "\<bar>n\<bar> < 2 ^ 53 \<Longrightarrow> int64_of_float64 (real_of_int n) = n"
proof -
  assume a: "\<bar>n\<bar> < 2 ^ 53"
  have t: "trunc_real (real_of_int n) = n" by (simp add: trunc_real_def)
  have "(2::int) ^ 53 \<le> 2 ^ 63" by simp
  with a have "- (2 ^ 63) \<le> n \<and> n < 2 ^ 63" by linarith
  then show ?thesis unfolding int64_of_float64_def t by simp
qed

lemma exponent_le: "0 < x \<Longrightarrow> 2 powi (exponent x) \<le> x"
proof (cases "1 \<le> x")
  case True
  then have m: "0 < \<lfloor>x\<rfloor>" by simp
  from bitlen_bounds [OF m] have b: "2 ^ nat (bitlen \<lfloor>x\<rfloor> - 1) \<le> \<lfloor>x\<rfloor>" by simp
  have nn: "0 \<le> bitlen \<lfloor>x\<rfloor> - 1" using m by (simp add: bitlen_alt_def)
  have "real_of_int (2 ^ nat (bitlen \<lfloor>x\<rfloor> - 1)) \<le> real_of_int \<lfloor>x\<rfloor>"
    using b by (simp only: of_int_le_iff)
  also have "\<dots> \<le> x" by simp
  finally show ?thesis using True nn by (simp add: exponent_def power_int_def)
next
  case False
  assume pos: "0 < x"
  let ?c = "\<lceil>1 / x\<rceil>"
  from False pos have "1 < 1 / x" by simp
  then have c2: "2 \<le> ?c" by (simp add: le_ceiling_iff)
  then have c1: "0 < ?c - 1" by simp
  from bitlen_bounds [OF c1] have "?c - 1 < 2 ^ nat (bitlen (?c - 1))" by simp
  then have cle: "?c \<le> 2 ^ nat (bitlen (?c - 1))" by simp
  have "1 / x \<le> real_of_int ?c" by (rule le_of_int_ceiling)
  also have "\<dots> \<le> real_of_int (2 ^ nat (bitlen (?c - 1)))"
    using cle by (simp only: of_int_le_iff)
  also have "\<dots> = 2 ^ nat (bitlen (?c - 1))" by simp
  finally have le: "1 / x \<le> 2 ^ nat (bitlen (?c - 1))" .
  have bp: "0 < bitlen (?c - 1)" using c1 by (simp add: bitlen_alt_def)
  have "1 / 2 ^ nat (bitlen (?c - 1)) \<le> x"
    using le pos by (simp add: field_simps)
  then show ?thesis using False bp by (simp add: exponent_def power_int_def field_simps)
qed

lemma round_even_error: "\<bar>real_of_int (round_even q) - q\<bar> \<le> 1 / 2"
proof -
  have "real_of_int \<lfloor>q\<rfloor> \<le> q" "q < real_of_int \<lfloor>q\<rfloor> + 1" by linarith+
  then show ?thesis by (auto simp: round_even_def Let_def)
qed

lemma round_f64_error: "\<bar>round_f64 x - x\<bar> \<le> \<bar>x\<bar> / 2 ^ 53"
proof (cases "x = 0")
  case True
  then show ?thesis by (simp add: round_f64_def)
next
  case False
  let ?a = "\<bar>x\<bar>"
  let ?scale = "(2::real) powi (exponent ?a - 52)"
  let ?n = "round_even (?a / ?scale)"
  have a: "0 < ?a" using False by simp
  have sc: "0 < ?scale" by simp
  have sc_eq: "?scale = 2 powi (exponent ?a) / 2 ^ 52"
    by (simp add: power_int_diff)
  have sc_le: "?scale \<le> ?a / 2 ^ 52"
    unfolding sc_eq using exponent_le [OF a] by (simp add: divide_right_mono)
  have "\<bar>real_of_int ?n - ?a / ?scale\<bar> \<le> 1 / 2" by (rule round_even_error)
  then have "\<bar>real_of_int ?n - ?a / ?scale\<bar> * ?scale \<le> 1 / 2 * ?scale"
    using sc by (intro mult_right_mono) simp_all
  moreover have "\<bar>real_of_int ?n - ?a / ?scale\<bar> * ?scale = \<bar>real_of_int ?n * ?scale - ?a\<bar>"
  proof -
    have "\<bar>real_of_int ?n - ?a / ?scale\<bar> * ?scale = \<bar>(real_of_int ?n - ?a / ?scale) * ?scale\<bar>"
      using sc by (simp add: abs_mult)
    also have "(real_of_int ?n - ?a / ?scale) * ?scale = real_of_int ?n * ?scale - ?a"
      using sc by (simp add: field_simps)
    finally show ?thesis .
  qed
  ultimately have e: "\<bar>real_of_int ?n * ?scale - ?a\<bar> \<le> ?scale / 2" by simp
  have "round_f64 x - x = sgn x * (real_of_int ?n * ?scale - ?a)"
    using False by (simp add: round_f64_def Let_def algebra_simps sgn_real_def)
  then have "\<bar>round_f64 x - x\<bar> = \<bar>real_of_int ?n * ?scale - ?a\<bar>"
    using False by (simp add: abs_mult sgn_real_def)
  also have "\<dots> \<le> ?scale / 2" by (rule e)
  also have "\<dots> \<le> (?a / 2 ^ 52) / 2" using sc_le by simp
  also have "\<dots> = ?a / 2 ^ 53" by simp
  finally show ?thesis .
qed


lemma wrap64_small: "\<bar>n\<bar> < 2 ^ 53 \<Longrightarrow> wrap64 n = n"
proof -
  assume a: "\<bar>n\<bar> < 2 ^ 53"
  have "(2::int) ^ 53 \<le> 2 ^ 63" by simp
  with a have "0 \<le> n + 2 ^ 63" "n + 2 ^ 63 < 2 ^ 64" by simp_all
  then have "(n + 2 ^ 63) mod 2 ^ 64 = n + 2 ^ 63" by (rule mod_pos_pos_trivial)
  then show ?thesis by (simp add: wrap64_def)
qed

lemma two_roundings:
  "\<bar>round_f64 (round_f64 r * 100) - r * 100\<bar> \<le> 3 * \<bar>r * 100\<bar> / 2 ^ 53"
proof -
  define u :: real where "u = 1 / 2 ^ 53"
  define q where "q = round_f64 r"
  define p where "p = round_f64 (q * 100)"
  have u: "0 \<le> u" "u \<le> 1" by (simp_all add: u_def)
  have e1: "\<bar>q - r\<bar> \<le> \<bar>r\<bar> * u"
    using round_f64_error [of r] by (simp add: q_def u_def)
  have e2: "\<bar>p - q * 100\<bar> \<le> \<bar>q\<bar> * 100 * u"
    using round_f64_error [of "q * 100"] by (simp add: p_def u_def abs_mult)
  have "\<bar>q\<bar> \<le> \<bar>r\<bar> + \<bar>q - r\<bar>" by linarith
  with e1 have q: "\<bar>q\<bar> \<le> \<bar>r\<bar> + \<bar>r\<bar> * u" by linarith
  have "\<bar>q\<bar> * (100 * u) \<le> (\<bar>r\<bar> + \<bar>r\<bar> * u) * (100 * u)"
    using q u by (intro mult_right_mono) simp_all
  with e2 have e3: "\<bar>p - q * 100\<bar> \<le> (\<bar>r\<bar> + \<bar>r\<bar> * u) * (100 * u)" by (simp add: mult.assoc)
  have "\<bar>r\<bar> * u * u \<le> \<bar>r\<bar> * u * 1"
    using u by (intro mult_left_mono) simp_all
  then have uu: "\<bar>r\<bar> * u * u \<le> \<bar>r\<bar> * u" by simp
  have "p - r * 100 = (p - q * 100) + 100 * (q - r)" by simp
  then have "\<bar>p - r * 100\<bar> \<le> \<bar>p - q * 100\<bar> + \<bar>100 * (q - r)\<bar>"
    by (simp only: abs_triangle_ineq)
  moreover have "\<bar>100 * (q - r)\<bar> = 100 * \<bar>q - r\<bar>"
    by (simp only: abs_mult abs_numeral)
  ultimately have "\<bar>p - r * 100\<bar> \<le> \<bar>p - q * 100\<bar> + 100 * \<bar>q - r\<bar>"
    by (simp only:)
  also have "\<dots> \<le> (\<bar>r\<bar> + \<bar>r\<bar> * u) * (100 * u) + 100 * (\<bar>r\<bar> * u)"
    using e3 e1 by linarith
  also have "\<dots> = 200 * (\<bar>r\<bar> * u) + 100 * (\<bar>r\<bar> * u * u)" by (simp add: algebra_simps)
  also have "\<dots> \<le> 300 * (\<bar>r\<bar> * u)" using uu by linarith
  also have "\<dots> = 3 * \<bar>r * 100\<bar> / 2 ^ 53" by (simp add: u_def abs_mult)
  finally show ?thesis by (simp add: p_def q_def)
qed

lemma progress_error:
  assumes "Total s \<noteq> 0" "\<bar>Total s\<bar> < 2 ^ 53" "\<bar>Uploaded s + Skipped s\<bar> < 2 ^ 53"
  shows "\<bar>GetProgress s - real_of_int (Uploaded s + Skipped s) / real_of_int (Total s) * 100\<bar>
    \<le> 3 * \<bar>real_of_int (Uploaded s + Skipped s) / real_of_int (Total s) * 100\<bar> / 2 ^ 53"
proof -
  have "GetProgress s
      = round_f64 (round_f64 (real_of_int (Uploaded s + Skipped s) / real_of_int (Total s)) * 100)"
    using assms
    by (simp add: GetProgress_def f64_mul_def f64_div_def f64_def wrap64_small float64_exact)
  then show ?thesis by (simp only: two_roundings)
qed

text \<open>
  C9. \<open>GetProgress\<close> is 0 when the total is 0 and otherwise the float64 expression
  \<open>(uploaded + skipped) / total * 100\<close>: the quotient of the two converted counts,
  rounded, times 100, rounded again. While the counts are below \<open>2 ^ 53\<close> that value is
  within a relative error of \<open>3 / 2 ^ 53\<close> of the exact ratio.
  \<open>GetEstimatedTimeRemaining\<close> is 0 whenever \<open>uploaded\<close> is 0, whatever the skipped
  count, so it stays 0 on a session that has recorded any number of duplicates and no new
  file.
\<close>

theorem progress_and_remaining_time:
  "(Total s = 0 \<longrightarrow> GetProgress s = 0)
   \<and> (Total s \<noteq> 0 \<longrightarrow>
        GetProgress s = f64_mul (f64_div (f64 (wrap64 (Uploaded s + Skipped s))) (f64 (Total s))) 100)
   \<and> (Total s \<noteq> 0 \<and> \<bar>Total s\<bar> < 2 ^ 53 \<and> \<bar>Uploaded s + Skipped s\<bar> < 2 ^ 53 \<longrightarrow>
        \<bar>GetProgress s - real_of_int (Uploaded s + Skipped s) / real_of_int (Total s) * 100\<bar>
        \<le> 3 * \<bar>real_of_int (Uploaded s + Skipped s) / real_of_int (Total s) * 100\<bar> / 2 ^ 53)
   \<and> (Uploaded s = 0 \<longrightarrow> GetEstimatedTimeRemaining now s = 0)
   \<and> (Uploaded s = 0 \<longrightarrow>
        GetEstimatedTimeRemaining now (record_duplicates events s) = 0)"
proof (intro conjI impI)
  assume "Total s = 0"
  then show "GetProgress s = 0" by (simp add: GetProgress_def)
next
  assume "Total s \<noteq> 0"
  then show "GetProgress s
      = f64_mul (f64_div (f64 (wrap64 (Uploaded s + Skipped s))) (f64 (Total s))) 100"
    by (simp add: GetProgress_def)
next
  assume "Total s \<noteq> 0 \<and> \<bar>Total s\<bar> < 2 ^ 53 \<and> \<bar>Uploaded s + Skipped s\<bar> < 2 ^ 53"
  then show "\<bar>GetProgress s - real_of_int (Uploaded s + Skipped s) / real_of_int (Total s) * 100\<bar>
        \<le> 3 * \<bar>real_of_int (Uploaded s + Skipped s) / real_of_int (Total s) * 100\<bar> / 2 ^ 53"
    by (intro progress_error) simp_all
next
  assume "Uploaded s = 0"
  then show "GetEstimatedTimeRemaining now s = 0" by (simp add: GetEstimatedTimeRemaining_def)
next
  assume "Uploaded s = 0"
  then show "GetEstimatedTimeRemaining now (record_duplicates events s) = 0"
    by (simp add: GetEstimatedTimeRemaining_def record_duplicates_Uploaded)
qed

theorem progress_and_remaining_time_witness:
  "Total (NewSession ''t1'' 0) = 0 \<and> Uploaded (NewSession ''t1'' 0) = 0
   \<and> GetProgress (NewSession ''t1'' 0) = 0
   \<and> Skipped (record_duplicates [(''a.jpg'', 1), (''b.jpg'', 2)] (NewSession ''t1'' 0)) = 2
   \<and> GetEstimatedTimeRemaining 5000000000
        (record_duplicates [(''a.jpg'', 1), (''b.jpg'', 2)] (NewSession ''t1'' 0)) = 0
   \<and> Total session_29_of_100 \<noteq> 0
   \<and> \<bar>Total session_29_of_100\<bar> < 2 ^ 53
   \<and> \<bar>Uploaded session_29_of_100 + Skipped session_29_of_100\<bar> < 2 ^ 53
   \<and> GetProgress session_29_of_100 = 8162774324609023 / 281474976710656
   \<and> \<bar>GetProgress session_29_of_100
        - real_of_int (Uploaded session_29_of_100 + Skipped session_29_of_100)
          / real_of_int (Total session_29_of_100) * 100\<bar>
      \<le> 3 * \<bar>real_of_int (Uploaded session_29_of_100 + Skipped session_29_of_100)
          / real_of_int (Total session_29_of_100) * 100\<bar> / 2 ^ 53"
proof -
  have z: "Total (NewSession ''t1'' 0) = 0" "Uploaded (NewSession ''t1'' 0) = 0"
    by (simp_all add: NewSession_def)
  have sk: "Skipped (record_duplicates [(''a.jpg'', 1), (''b.jpg'', 2)] (NewSession ''t1'' 0)) = 2"
    by (simp add: NewSession_def record_duplicates_def duplicate_updater_def Update_Session_def)
  have h: "Total session_29_of_100 \<noteq> 0" "\<bar>Total session_29_of_100\<bar> < 2 ^ 53"
    "\<bar>Uploaded session_29_of_100 + Skipped session_29_of_100\<bar> < 2 ^ 53"
    by (simp_all add: session_29_of_100_def NewSession_def)
  have v: "GetProgress session_29_of_100 = 8162774324609023 / 281474976710656"
    by code_simp
  note a = progress_and_remaining_time
      [of "NewSession ''t1'' 0" 5000000000 "[(''a.jpg'', 1), (''b.jpg'', 2)]"]
  note b = progress_and_remaining_time [of session_29_of_100 0 "[]"]
  from a z have 1: "GetProgress (NewSession ''t1'' 0) = 0"
    and 2: "GetEstimatedTimeRemaining 5000000000
        (record_duplicates [(''a.jpg'', 1), (''b.jpg'', 2)] (NewSession ''t1'' 0)) = 0"
    by blast+
  from b h have 3: "\<bar>GetProgress session_29_of_100
        - real_of_int (Uploaded session_29_of_100 + Skipped session_29_of_100)
          / real_of_int (Total session_29_of_100) * 100\<bar>
      \<le> 3 * \<bar>real_of_int (Uploaded session_29_of_100 + Skipped session_29_of_100)
          / real_of_int (Total session_29_of_100) * 100\<bar> / 2 ^ 53"
    by blast
  from z sk h v 1 2 3 show ?thesis by (intro conjI)
qed

section \<open>Recording uploads\<close>

text \<open>
  C1 (the code departs from the claim). The updater of the duplicate branch of
  \<open>SyncHandler\<close> leaves every session in \<open>StatusSyncing\<close>: it has no completion check.
  After the two uploads of \<open>two_uploads\<close>, session \<open>t1\<close> has one uploaded and one
  skipped file of a total of 2 and is still \<open>StatusSyncing\<close>, not \<open>StatusCompleted\<close>.
\<close>

theorem final_duplicate_stays_syncing:
  "map_option (\<lambda>s. (Status s, Uploaded s, Skipped s, Total s)) (sessionStore two_uploads ''t1'')
     = Some (StatusSyncing, 1, 1, 2)
   \<and> (\<forall>name s. Status (duplicate_updater name s) = StatusSyncing)"
proof
  show "map_option (\<lambda>s. (Status s, Uploaded s, Skipped s, Total s)) (sessionStore two_uploads ''t1'')
     = Some (StatusSyncing, 1, 1, 2)"
    by code_simp
  show "\<forall>name s. Status (duplicate_updater name s) = StatusSyncing"
    by (simp add: duplicate_updater_def)
qed

section \<open>The re-sort of a bucket\<close>

lemma mset_swap_list: "i < length xs \<Longrightarrow> j < length xs \<Longrightarrow> mset (swap xs i j) = mset xs"
  unfolding swap_def by (simp add: mset_swap)

lemma mset_sort_inner: "i < length photos \<Longrightarrow> mset (sort_inner photos i j) = mset photos"
proof (induction photos i j rule: sort_inner.induct)
  case (1 photos i j)
  show ?case
  proof (cases "j < length photos")
    case True
    let ?next = "if Before (Date (photos ! i)) (Date (photos ! j)) then swap photos i j else photos"
    have len: "length ?next = length photos" by (simp add: swap_def)
    have "mset (sort_inner ?next i (j + 1)) = mset ?next"
      using "1.IH" [OF True] "1.prems" len by simp
    also have "mset ?next = mset photos"
      using True "1.prems" by (simp add: mset_swap_list)
    finally show ?thesis using True by (subst sort_inner.simps) simp
  next
    case False
    then show ?thesis by (subst sort_inner.simps) simp
  qed
qed

lemma sort_inner_prefix:
  "i < j \<Longrightarrow> k < i \<Longrightarrow> sort_inner photos i j ! k = photos ! k"
proof (induction photos i j rule: sort_inner.induct)
  case (1 photos i j)
  show ?case
  proof (cases "j < length photos")
    case True
    let ?next = "if Before (Date (photos ! i)) (Date (photos ! j)) then swap photos i j else photos"
    have "sort_inner ?next i (j + 1) ! k = ?next ! k"
      using "1.IH" [OF True] "1.prems" by simp
    also have "?next ! k = photos ! k"
      using "1.prems" by (simp add: swap_def)
    finally show ?thesis using True by (subst sort_inner.simps) simp
  next
    case False
    then show ?thesis by (subst sort_inner.simps) simp
  qed
qed

text \<open>
  Every element that is at or after position \<open>i\<close> in the result was at or after
  position \<open>i\<close> before.
\<close>

lemma sort_inner_suffix:
  "i < j \<Longrightarrow> i \<le> b \<Longrightarrow> b < length photos \<Longrightarrow>
   \<exists>b'. i \<le> b' \<and> b' < length photos \<and> sort_inner photos i j ! b = photos ! b'"
proof (induction photos i j arbitrary: b rule: sort_inner.induct)
  case (1 photos i j)
  show ?case
  proof (cases "j < length photos")
    case True
    let ?next = "if Before (Date (photos ! i)) (Date (photos ! j)) then swap photos i j else photos"
    have len: "length ?next = length photos" by (simp add: swap_def)
    obtain b' where b': "i \<le> b'" "b' < length photos" "sort_inner ?next i (j + 1) ! b = ?next ! b'"
      using "1.IH" [OF True, of b] "1.prems" len by auto
    have "\<exists>c. i \<le> c \<and> c < length photos \<and> ?next ! b' = photos ! c"
    proof (cases "Before (Date (photos ! i)) (Date (photos ! j))")
      case False
      then show ?thesis using b' by auto
    next
      case sw: True
      have ij: "i < length photos" using "1.prems" True by simp
      consider "b' = i" | "b' = j" | "b' \<noteq> i" "b' \<noteq> j" by blast
      then show ?thesis
      proof cases
        case 1
        then have "?next ! b' = photos ! j" using sw ij True "1.prems"(1) by (simp add: swap_def)
        then show ?thesis using True "1.prems"(1) by (intro exI [of _ j]) simp
      next
        case 2
        then have "?next ! b' = photos ! i" using sw ij True by (simp add: swap_def)
        then show ?thesis using ij by (intro exI [of _ i]) simp
      next
        case 3
        then have "?next ! b' = photos ! b'" using sw by (simp add: swap_def)
        then show ?thesis using b' by (intro exI [of _ b']) simp
      qed
    qed
    then obtain c where "i \<le> c" "c < length photos" "?next ! b' = photos ! c" by blast
    with b' have "i \<le> c \<and> c < length photos \<and> sort_inner ?next i (j + 1) ! b = photos ! c" by simp
    then show ?thesis using True by (subst sort_inner.simps) auto
  next
    case False
    then show ?thesis using "1.prems" by (subst sort_inner.simps) auto
  qed
qed

lemma sort_inner_max:
  "i < j \<Longrightarrow> i < length photos \<Longrightarrow>
   (\<And>k. i < k \<Longrightarrow> k < j \<Longrightarrow> k < length photos \<Longrightarrow> Date (photos ! k) \<le> Date (photos ! i)) \<Longrightarrow>
   i < k \<Longrightarrow> k < length photos \<Longrightarrow>
   Date (sort_inner photos i j ! k) \<le> Date (sort_inner photos i j ! i)"
proof (induction photos i j arbitrary: k rule: sort_inner.induct)
  case (1 photos i j)
  show ?case
  proof (cases "j < length photos")
    case True
    let ?next = "if Before (Date (photos ! i)) (Date (photos ! j)) then swap photos i j else photos"
    have len: "length ?next = length photos" by (simp add: swap_def)
    have inv: "Date (?next ! m) \<le> Date (?next ! i)" if "i < m" "m < j + 1" "m < length ?next" for m
    proof (cases "Before (Date (photos ! i)) (Date (photos ! j))")
      case False
      show ?thesis
      proof (cases "m = j")
        case True
        with False show ?thesis by (simp add: Before_def)
      next
        case mj: False
        with that have "m < j" by simp
        with "1.prems"(3) [of m] that False len show ?thesis by simp
      qed
    next
      case sw: True
      have nexti: "?next ! i = photos ! j" using sw "1.prems" True by (simp add: swap_def)
      show ?thesis
      proof (cases "m = j")
        case mj: True
        then have "?next ! m = photos ! i" using sw "1.prems" True by (simp add: swap_def)
        with nexti sw show ?thesis by (simp add: Before_def)
      next
        case mj: False
        with that have m: "m < j" by simp
        then have "?next ! m = photos ! m" using sw that by (simp add: swap_def)
        moreover have "Date (photos ! m) \<le> Date (photos ! i)"
          using "1.prems"(3) [of m] that m len by simp
        ultimately show ?thesis using nexti sw by (simp add: Before_def)
      qed
    qed
    have "Date (sort_inner ?next i (j + 1) ! k) \<le> Date (sort_inner ?next i (j + 1) ! i)"
    proof (rule "1.IH" [OF True])
      show "i < j + 1" using "1.prems" by simp
      show "i < length ?next" using "1.prems" len by simp
      show "i < k" by fact
      show "k < length ?next" using "1.prems" len by simp
      show "Date (?next ! m) \<le> Date (?next ! i)" if "i < m" "m < j + 1" "m < length ?next" for m
        using inv that by blast
    qed
    then show ?thesis using True by (subst (1 2) sort_inner.simps) simp
  next
    case False
    with "1.prems"(3) [of k] "1.prems" show ?thesis by (subst (1 2) sort_inner.simps) simp
  qed
qed

lemma length_sort_outer: "length (sort_outer photos i) = length photos"
proof (induction photos i rule: sort_outer.induct)
  case (1 photos i)
  show ?case
  proof (cases "i + 1 < length photos")
    case True
    with 1 show ?thesis by (subst sort_outer.simps) (simp add: length_sort_inner)
  next
    case False
    then show ?thesis by (subst sort_outer.simps) simp
  qed
qed

lemma mset_sort_outer: "mset (sort_outer photos i) = mset photos"
proof (induction photos i rule: sort_outer.induct)
  case (1 photos i)
  show ?case
  proof (cases "i + 1 < length photos")
    case True
    with 1 show ?thesis by (subst sort_outer.simps) (simp add: mset_sort_inner)
  next
    case False
    then show ?thesis by (subst sort_outer.simps) simp
  qed
qed

lemma sort_outer_descending:
  "(\<And>a b. a < i \<Longrightarrow> a < b \<Longrightarrow> b < length photos \<Longrightarrow> Date (photos ! b) \<le> Date (photos ! a)) \<Longrightarrow>
   a < b \<Longrightarrow> b < length photos \<Longrightarrow>
   Date (sort_outer photos i ! b) \<le> Date (sort_outer photos i ! a)"
proof (induction photos i arbitrary: a b rule: sort_outer.induct)
  case (1 photos i)
  show ?case
  proof (cases "i + 1 < length photos")
    case True
    let ?ys = "sort_inner photos i (i + 1)"
    have len: "length ?ys = length photos" by (rule length_sort_inner)
    have inv: "Date (?ys ! b') \<le> Date (?ys ! a')"
      if h: "a' < i + 1" "a' < b'" "b' < length ?ys" for a' b'
    proof (cases "a' < i")
      case low: True
      have ya: "?ys ! a' = photos ! a'" using low by (simp add: sort_inner_prefix)
      show ?thesis
      proof (cases "b' < i")
        case True
        then have "?ys ! b' = photos ! b'" by (simp add: sort_inner_prefix)
        with ya "1.prems"(1) [of a' b'] low h len show ?thesis by simp
      next
        case False
        then obtain c where c: "i \<le> c" "c < length photos" "?ys ! b' = photos ! c"
          using sort_inner_suffix [of i "i + 1" b' photos] h len by auto
        with ya "1.prems"(1) [of a' c] low show ?thesis by simp
      qed
    next
      case False
      with h have ai: "a' = i" by simp
      show ?thesis
        unfolding ai
      proof (rule sort_inner_max)
        show "i < i + 1" by simp
        show "i < length photos" using True by simp
        show "i < b'" using h ai by simp
        show "b' < length photos" using h len by simp
        show "Date (photos ! k) \<le> Date (photos ! i)" if "i < k" "k < i + 1" for k
          using that by simp
      qed
    qed
    have "Date (sort_outer ?ys (i + 1) ! b) \<le> Date (sort_outer ?ys (i + 1) ! a)"
    proof (rule "1.IH" [OF True])
      show "a < b" by fact
      show "b < length ?ys" using "1.prems" len by simp
      show "Date (?ys ! b') \<le> Date (?ys ! a')" if "a' < i + 1" "a' < b'" "b' < length ?ys" for a' b'
        using inv that by blast
    qed
    then show ?thesis using True by (subst (1 2) sort_outer.simps) simp
  next
    case False
    with "1.prems" have "a < i" by simp
    with "1.prems"(1) [of a b] "1.prems" False show ?thesis
      by (subst (1 2) sort_outer.simps) simp
  qed
qed

lemma sort_outer_sorted: "sorted_wrt (\<lambda>p q. Date q \<le> Date p) (sort_outer photos 0)"
  unfolding sorted_wrt_iff_nth_less
  using sort_outer_descending [of 0 photos] by (simp add: length_sort_outer)

lemma set_sort_outer: "set (sort_outer photos i) = set photos"
  using mset_sort_outer [of photos i] by (metis set_mset_mset)

lemma distinct_Path_sort_outer:
  "distinct (map Path (sort_outer photos i)) = distinct (map Path photos)"
proof -
  have "mset (map Path (sort_outer photos i)) = mset (map Path photos)"
    by (simp add: mset_sort_outer)
  then show ?thesis by (rule mset_eq_imp_distinct_iff)
qed

section \<open>Normalisation\<close>

lemma filter_map_fixed: "(\<And>y. y \<in> set ys \<Longrightarrow> f y = y \<and> P y) \<Longrightarrow> filter P (map f ys) = ys"
  by (induction ys) auto

lemma kept_is_fixed:
  assumes tbl: "\<And>r. 1072 \<le> r \<Longrightarrow> r \<le> 1103 \<or> r = 1105 \<Longrightarrow> tbl r = r"
    and kept: "0 \<le> keep_rune r"
  shows "keep_rune (unicode_ToLower tbl r) = r \<and> 0 \<le> keep_rune (unicode_ToLower tbl r)"
proof -
  from kept have r: "(97 \<le> r \<and> r \<le> 122) \<or> (48 \<le> r \<and> r \<le> 57) \<or> (1072 \<le> r \<and> r \<le> 1103) \<or> r = 1105"
    by (simp add: keep_rune_def split: if_splits)
  then have "unicode_ToLower tbl r = r"
    using tbl [of r] by (auto simp: unicode_ToLower_def)
  with r kept show ?thesis by (simp add: keep_rune_def)
qed

lemma keep_rune_result: "0 \<le> keep_rune r \<Longrightarrow> keep_rune r = r"
  by (simp add: keep_rune_def split: if_splits)

lemma Normalize_members:
  "y \<in> set (NormalizeCounterNumber tbl x) \<Longrightarrow> 0 \<le> keep_rune y"
proof -
  assume "y \<in> set (NormalizeCounterNumber tbl x)"
  then obtain r where "y = keep_rune r" "0 \<le> keep_rune r"
    by (auto simp: NormalizeCounterNumber_def strings_Map_def strings_ToLower_def)
  then show ?thesis using keep_rune_result [of r] by simp
qed

lemma Normalize_idem:
  assumes tbl: "\<And>r. 1072 \<le> r \<Longrightarrow> r \<le> 1103 \<or> r = 1105 \<Longrightarrow> tbl r = r"
  shows "NormalizeCounterNumber tbl (NormalizeCounterNumber tbl x) = NormalizeCounterNumber tbl x"
proof -
  let ?n = "NormalizeCounterNumber tbl x"
  have "filter (\<lambda>r. 0 \<le> r) (map (\<lambda>r. keep_rune (unicode_ToLower tbl r)) ?n) = ?n"
  proof (rule filter_map_fixed)
    fix y assume "y \<in> set ?n"
    then have k: "0 \<le> keep_rune y" by (rule Normalize_members)
    show "keep_rune (unicode_ToLower tbl y) = y \<and> 0 \<le> y"
      using kept_is_fixed [OF tbl k] by simp
  qed
  then show ?thesis
    by (simp add: NormalizeCounterNumber_def strings_Map_def strings_ToLower_def comp_def)
qed

lemma separator_dropped: "separator tbl r \<Longrightarrow> keep_rune (unicode_ToLower tbl r) < 0"
  by (auto simp: separator_def ascii_separator_def unicode_ToLower_def keep_rune_def kept_rune_def)

lemma Normalize_strip:
  "NormalizeCounterNumber tbl (strip_separators tbl x) = NormalizeCounterNumber tbl x"
  by (induction x)
    (auto simp: NormalizeCounterNumber_def strings_Map_def strings_ToLower_def
      strip_separators_def dest: separator_dropped [of tbl])

lemma Normalize_of_lower:
  "NormalizeCounterNumber tbl x = strings_Map keep_rune (strings_ToLower tbl x)"
  by (simp add: NormalizeCounterNumber_def)

lemma strings_Map_keep: "strings_Map keep_rune s = filter kept_rune s"
  unfolding strings_Map_def
  by (induction s) (auto simp: keep_rune_def kept_rune_def)

lemma Normalize_kept:
  assumes tbl: "\<And>r. 1072 \<le> r \<Longrightarrow> r \<le> 1103 \<or> r = 1105 \<Longrightarrow> tbl r = r"
  shows "list_all (\<lambda>r. kept_rune r \<and> unicode_ToLower tbl r = r) (NormalizeCounterNumber tbl x)"
proof -
  have "kept_rune r \<and> unicode_ToLower tbl r = r"
    if "r \<in> set (NormalizeCounterNumber tbl x)" for r
  proof -
    from that have "r \<in> set (filter kept_rune (strings_ToLower tbl x))"
      by (simp only: Normalize_of_lower strings_Map_keep)
    then have k: "kept_rune r" by simp
    then have "unicode_ToLower tbl r = r"
      using tbl [of r] by (auto simp: kept_rune_def unicode_ToLower_def)
    with k show ?thesis by simp
  qed
  then show ?thesis by (simp add: list_all_iff)
qed

text \<open>
  C8. Given that the case table leaves the Cyrillic small letters as they are,
  \<open>NormalizeCounterNumber\<close> is idempotent; two identifiers that differ only by letter
  case or by punctuation and separator characters have the same normal form; the normal
  form is the lower-cased identifier with every rune removed that is not one of
  \<open>a\<close> to \<open>z\<close>, \<open>0\<close> to \<open>9\<close>, Cyrillic small a to ya or io, in the order of the
  identifier; and every rune of it is one of these and is its own lower case.
\<close>

theorem normalize_idempotent_and_collapsing:
  assumes "\<forall>r. 1072 \<le> r \<and> (r \<le> 1103 \<or> r = 1105) \<longrightarrow> tbl r = r"
  shows "NormalizeCounterNumber tbl (NormalizeCounterNumber tbl x) = NormalizeCounterNumber tbl x
    \<and> (strings_ToLower tbl (strip_separators tbl x) = strings_ToLower tbl (strip_separators tbl y) \<longrightarrow>
       NormalizeCounterNumber tbl x = NormalizeCounterNumber tbl y)
    \<and> NormalizeCounterNumber tbl x = filter kept_rune (strings_ToLower tbl x)
    \<and> list_all (\<lambda>r. kept_rune r \<and> unicode_ToLower tbl r = r) (NormalizeCounterNumber tbl x)"
proof (intro conjI)
  show "NormalizeCounterNumber tbl (NormalizeCounterNumber tbl x) = NormalizeCounterNumber tbl x"
    using assms by (intro Normalize_idem) blast
  show "strings_ToLower tbl (strip_separators tbl x) = strings_ToLower tbl (strip_separators tbl y) \<longrightarrow>
       NormalizeCounterNumber tbl x = NormalizeCounterNumber tbl y"
  proof
    assume "strings_ToLower tbl (strip_separators tbl x)
        = strings_ToLower tbl (strip_separators tbl y)"
    then have "NormalizeCounterNumber tbl (strip_separators tbl x)
        = NormalizeCounterNumber tbl (strip_separators tbl y)"
      by (simp add: Normalize_of_lower)
    then show "NormalizeCounterNumber tbl x = NormalizeCounterNumber tbl y"
      by (simp add: Normalize_strip)
  qed
  show "NormalizeCounterNumber tbl x = filter kept_rune (strings_ToLower tbl x)"
    by (simp only: Normalize_of_lower strings_Map_keep)
  show "list_all (\<lambda>r. kept_rune r \<and> unicode_ToLower tbl r = r) (NormalizeCounterNumber tbl x)"
    using assms by (intro Normalize_kept) blast
qed

text \<open>
  The identifiers \<open>AB-12 \<close> followed by the Cyrillic capitals io and ya, and the numero
  sign \<open>U+2116\<close> followed by \<open>ab1/2\<close>, the small io and ya and a full stop: both have the
  key \<open>ab12\<close> followed by the small io and ya.
\<close>

theorem normalize_idempotent_and_collapsing_witness:
  "strings_ToLower cyrillic_lower
       (strip_separators cyrillic_lower [65, 66, 45, 49, 50, 32, 1025, 1071])
     = strings_ToLower cyrillic_lower
       (strip_separators cyrillic_lower [8470, 97, 98, 49, 47, 50, 1105, 1103, 46])
   \<and> NormalizeCounterNumber cyrillic_lower [65, 66, 45, 49, 50, 32, 1025, 1071]
     = NormalizeCounterNumber cyrillic_lower [8470, 97, 98, 49, 47, 50, 1105, 1103, 46]
   \<and> NormalizeCounterNumber cyrillic_lower
        (NormalizeCounterNumber cyrillic_lower [65, 66, 45, 49, 50, 32, 1025, 1071])
     = NormalizeCounterNumber cyrillic_lower [65, 66, 45, 49, 50, 32, 1025, 1071]
   \<and> strings_ToLower cyrillic_lower [65, 66, 45, 49, 50, 32, 1025, 1071]
     = [97, 98, 45, 49, 50, 32, 1105, 1103]
   \<and> NormalizeCounterNumber cyrillic_lower [65, 66, 45, 49, 50, 32, 1025, 1071]
     = [97, 98, 49, 50, 1105, 1103]
   \<and> NormalizeCounterNumber cyrillic_lower [8470, 97, 98, 49, 47, 50, 1105, 1103, 46]
     = [97, 98, 49, 50, 1105, 1103]
   \<and> list_all (\<lambda>r. kept_rune r \<and> unicode_ToLower cyrillic_lower r = r)
        (NormalizeCounterNumber cyrillic_lower [65, 66, 45, 49, 50, 32, 1025, 1071])"
proof -
  have tbl: "\<forall>r. 1072 \<le> r \<and> (r \<le> 1103 \<or> r = 1105) \<longrightarrow> cyrillic_lower r = r"
    by (simp add: cyrillic_lower_def)
  have lower: "strings_ToLower cyrillic_lower [65, 66, 45, 49, 50, 32, 1025, 1071]
     = [97, 98, 45, 49, 50, 32, 1105, 1103]"
    by (simp add: strings_ToLower_def unicode_ToLower_def cyrillic_lower_def)
  have eq: "strings_ToLower cyrillic_lower
       (strip_separators cyrillic_lower [65, 66, 45, 49, 50, 32, 1025, 1071])
     = strings_ToLower cyrillic_lower
       (strip_separators cyrillic_lower [8470, 97, 98, 49, 47, 50, 1105, 1103, 46])"
    by (simp add: strings_ToLower_def strip_separators_def separator_def ascii_separator_def
        kept_rune_def unicode_ToLower_def cyrillic_lower_def)
  note n = normalize_idempotent_and_collapsing [OF tbl,
      of "[65, 66, 45, 49, 50, 32, 1025, 1071]" "[8470, 97, 98, 49, 47, 50, 1105, 1103, 46]"]
  from n eq have same: "NormalizeCounterNumber cyrillic_lower [65, 66, 45, 49, 50, 32, 1025, 1071]
     = NormalizeCounterNumber cyrillic_lower [8470, 97, 98, 49, 47, 50, 1105, 1103, 46]"
    by blast
  from n have "NormalizeCounterNumber cyrillic_lower [65, 66, 45, 49, 50, 32, 1025, 1071]
     = filter kept_rune (strings_ToLower cyrillic_lower [65, 66, 45, 49, 50, 32, 1025, 1071])"
    by blast
  then have val: "NormalizeCounterNumber cyrillic_lower [65, 66, 45, 49, 50, 32, 1025, 1071]
     = [97, 98, 49, 50, 1105, 1103]"
    by (simp add: lower kept_rune_def)
  from same val have val2:
    "NormalizeCounterNumber cyrillic_lower [8470, 97, 98, 49, 47, 50, 1105, 1103, 46]
     = [97, 98, 49, 50, 1105, 1103]"
    by simp
  from n have idem: "NormalizeCounterNumber cyrillic_lower
        (NormalizeCounterNumber cyrillic_lower [65, 66, 45, 49, 50, 32, 1025, 1071])
     = NormalizeCounterNumber cyrillic_lower [65, 66, 45, 49, 50, 32, 1025, 1071]"
    by blast
  from n have all: "list_all (\<lambda>r. kept_rune r \<and> unicode_ToLower cyrillic_lower r = r)
        (NormalizeCounterNumber cyrillic_lower [65, 66, 45, 49, 50, 32, 1025, 1071])"
    by blast
  from eq same idem lower val val2 all show ?thesis by (intro conjI)
qed

text \<open>
  C10. Given the same fact about the case table, a lookup by an identifier and a lookup
  by its normal form return the same bucket, and so do lookups by any two identifiers
  with the same normal form.
\<close>

theorem lookup_normalizes_its_argument:
  assumes "\<forall>r. 1072 \<le> r \<and> (r \<le> 1103 \<or> r = 1105) \<longrightarrow> caseTable lb r = r"
  shows "GetPhotosByCounter lb idx (NormalizeCounterNumber (caseTable lb) x)
      = GetPhotosByCounter lb idx x
    \<and> (NormalizeCounterNumber (caseTable lb) x = NormalizeCounterNumber (caseTable lb) y \<longrightarrow>
       GetPhotosByCounter lb idx x = GetPhotosByCounter lb idx y)"
proof -
  have "NormalizeCounterNumber (caseTable lb) (NormalizeCounterNumber (caseTable lb) x)
      = NormalizeCounterNumber (caseTable lb) x"
    using assms by (intro Normalize_idem) blast
  then show ?thesis by (simp add: GetPhotosByCounter_def)
qed

theorem lookup_normalizes_its_argument_witness:
  "GetPhotosByCounter example_lib example_index
       (NormalizeCounterNumber (caseTable example_lib) [65, 66, 45, 49, 50])
     = GetPhotosByCounter example_lib example_index [65, 66, 45, 49, 50]
   \<and> NormalizeCounterNumber (caseTable example_lib) [65, 66, 45, 49, 50]
     = NormalizeCounterNumber (caseTable example_lib) [97, 98, 32, 49, 50]
   \<and> GetPhotosByCounter example_lib example_index [65, 66, 45, 49, 50]
     = GetPhotosByCounter example_lib example_index [97, 98, 32, 49, 50]
   \<and> map Path (GetPhotosByCounter example_lib example_index [97, 98, 32, 49, 50])
     = [''p2.jpg'', ''p3.jpg'', ''p1.jpg'']"
proof -
  have tbl: "\<forall>r. 1072 \<le> r \<and> (r \<le> 1103 \<or> r = 1105) \<longrightarrow> caseTable example_lib r = r"
    by (simp add: example_lib_def cyrillic_lower_def)
  have eq: "NormalizeCounterNumber (caseTable example_lib) [65, 66, 45, 49, 50]
     = NormalizeCounterNumber (caseTable example_lib) [97, 98, 32, 49, 50]"
    by code_simp
  have paths: "map Path (GetPhotosByCounter example_lib example_index [97, 98, 32, 49, 50])
     = [''p2.jpg'', ''p3.jpg'', ''p1.jpg'']"
    by code_simp
  from lookup_normalizes_its_argument [OF tbl, of example_index "[65, 66, 45, 49, 50]"
      "[97, 98, 32, 49, 50]"] eq paths
  show ?thesis by blast
qed

section \<open>Duplicates and the index\<close>

lemma AddHashes_keeps:
  "\<exists>info. db h = Some info \<and> fhHash info = h \<Longrightarrow>
   \<exists>info. AddHashes calls db h = Some info \<and> fhHash info = h"
proof (induction calls arbitrary: db)
  case Nil
  then show ?case by (simp add: AddHashes_def)
next
  case (Cons c calls)
  obtain h' s' d' p' where c: "c = (h', s', d', p')" by (cases c) auto
  have "\<exists>info. AddHash h' s' d' p' db h = Some info \<and> fhHash info = h"
    using Cons.prems by (auto simp: AddHash_def)
  with Cons.IH [of "AddHash h' s' d' p' db"] show ?case by (simp add: AddHashes_def c)
qed

text \<open>
  C2. Once \<open>AddHash\<close> has been called for a hash, then after any further \<open>AddHash\<close>
  calls \<open>CheckDuplicate\<close> with that hash returns the entry stored under it, with reason
  \<open>hash\<close>, for every size, identifier, timestamp and index: the first tier answers
  before the second is tried. With no later call the entry is the one that was added.
\<close>

theorem known_hash_is_duplicate:
  "(\<exists>info. AddHashes later (AddHash h sz date path db) h = Some info \<and> fhHash info = h
       \<and> CheckDuplicate lb (AddHashes later (AddHash h sz date path db)) h sz' counterNumber
            dateTaken ixr = (Some info, ''hash''))
   \<and> CheckDuplicate lb (AddHash h sz date path db) h sz' counterNumber dateTaken ixr
       = (Some \<lparr>fhHash = h, fhSize = sz, fhDate = date, fhPath = path\<rparr>, ''hash'')"
proof
  have "\<exists>info. AddHash h sz date path db h = Some info \<and> fhHash info = h"
    by (simp add: AddHash_def)
  with AddHashes_keeps [of "AddHash h sz date path db" h later]
  obtain info where "AddHashes later (AddHash h sz date path db) h = Some info" "fhHash info = h"
    by blast
  then show "\<exists>info. AddHashes later (AddHash h sz date path db) h = Some info \<and> fhHash info = h
       \<and> CheckDuplicate lb (AddHashes later (AddHash h sz date path db)) h sz' counterNumber
            dateTaken ixr = (Some info, ''hash'')"
    by (simp add: CheckDuplicate_def)
  show "CheckDuplicate lb (AddHash h sz date path db) h sz' counterNumber dateTaken ixr
       = (Some \<lparr>fhHash = h, fhSize = sz, fhDate = date, fhPath = path\<rparr>, ''hash'')"
    by (simp add: CheckDuplicate_def AddHash_def)
qed

lemma AddPhoto_absent:
  assumes "relPath \<notin> set (map Path (GetPhotosByCounter lb idx counterNumber))"
  shows "AddPhoto lb counterNumber relPath fullPath date sz hash userComment (idx, d) =
    (let k = NormalizeCounterNumber (caseTable lb) counterNumber;
         photos = sort_outer (GetPhotosByCounter lb idx counterNumber
                    @ [new_photo relPath fullPath date sz hash userComment]) 0;
         idx2 = idx\<lparr>index := (index idx)(k \<mapsto> photos)\<rparr>
     in (fst (saveIndex lb idx2 d), idx2, snd (saveIndex lb idx2 d)))"
  using assms by (simp add: AddPhoto_def GetPhotosByCounter_def new_photo_def Let_def)

lemma AddPhoto_present:
  assumes "relPath \<in> set (map Path (GetPhotosByCounter lb idx counterNumber))"
  shows "AddPhoto lb counterNumber relPath fullPath date sz hash userComment (idx, d) =
    (None, idx\<lparr>index := (index idx)(NormalizeCounterNumber (caseTable lb) counterNumber
        \<mapsto> GetPhotosByCounter lb idx counterNumber)\<rparr>, d)"
  using assms by (simp add: AddPhoto_def GetPhotosByCounter_def Let_def)

text \<open>
  C6. When the index file cannot be written and the path is new to the bucket,
  \<open>AddPhoto\<close> returns an error and the new record is in the bucket that
  \<open>GetPhotosByCounter\<close> returns afterwards.
\<close>

theorem failed_save_keeps_record:
  assumes "\<not> writable d"
    and "relPath \<notin> set (map Path (GetPhotosByCounter lb idx counterNumber))"
  shows "fst (AddPhoto lb counterNumber relPath fullPath date sz hash userComment (idx, d)) \<noteq> None
    \<and> \<lparr>Path = relPath, FullPath = fullPath, Date = date, Size = sz, Hash = hash,
        UserComment = userComment\<rparr>
      \<in> set (GetPhotosByCounter lb
            (fst (snd (AddPhoto lb counterNumber relPath fullPath date sz hash userComment (idx, d))))
            counterNumber)"
  using assms
  by (simp add: AddPhoto_absent Let_def saveIndex_def GetPhotosByCounter_def set_sort_outer
      new_photo_def)

theorem failed_save_keeps_record_witness:
  "\<not> writable readonly_disk
   \<and> ''p1.jpg'' \<notin> set (map Path (GetPhotosByCounter example_lib empty_index [65, 66, 45, 49, 50]))
   \<and> fst (AddPhoto example_lib [65, 66, 45, 49, 50] ''p1.jpg'' ''/photos/p1.jpg'' 5 100 ''h1'' []
            (empty_index, readonly_disk)) \<noteq> None
   \<and> \<lparr>Path = ''p1.jpg'', FullPath = ''/photos/p1.jpg'', Date = 5, Size = 100, Hash = ''h1'',
       UserComment = []\<rparr>
     \<in> set (GetPhotosByCounter example_lib
           (fst (snd (AddPhoto example_lib [65, 66, 45, 49, 50] ''p1.jpg'' ''/photos/p1.jpg'' 5 100
                        ''h1'' [] (empty_index, readonly_disk))))
           [65, 66, 45, 49, 50])"
proof -
  have ro: "\<not> writable readonly_disk"
    by (simp add: readonly_disk_def)
  have new: "''p1.jpg'' \<notin> set (map Path (GetPhotosByCounter example_lib empty_index [65, 66, 45, 49, 50]))"
    by (simp add: GetPhotosByCounter_def empty_index_def)
  from failed_save_keeps_record [OF ro new] ro new show ?thesis by blast
qed

lemma bucket_ok_Nil: "bucket_ok []"
  by (simp add: bucket_ok_def)

lemma bucket_ok_sorted_append:
  "bucket_ok photos \<Longrightarrow> Path p \<notin> set (map Path photos) \<Longrightarrow> bucket_ok (sort_outer (photos @ [p]) 0)"
  by (simp add: bucket_ok_def sort_outer_sorted distinct_Path_sort_outer)

lemma GetPhotos_update:
  "GetPhotosByCounter lb (idx\<lparr>index := (index idx)(k \<mapsto> ps)\<rparr>) I =
     (if NormalizeCounterNumber (caseTable lb) I = k then ps else GetPhotosByCounter lb idx I)"
  by (simp add: GetPhotosByCounter_def)

lemma GetPhotos_normalized:
  "NormalizeCounterNumber (caseTable lb) I = NormalizeCounterNumber (caseTable lb) c \<Longrightarrow>
   GetPhotosByCounter lb idx I = GetPhotosByCounter lb idx c"
  by (simp add: GetPhotosByCounter_def)

lemma AddPhoto_preserves:
  assumes inv: "\<And>I. bucket_ok (GetPhotosByCounter lb idx I)"
  shows "bucket_ok (GetPhotosByCounter lb
           (fst (snd (AddPhoto lb c relPath fullPath date sz hash userComment (idx, d)))) I)"
proof (cases "relPath \<in> set (map Path (GetPhotosByCounter lb idx c))")
  case True
  then show ?thesis
    using inv [of I] inv [of c]
    by (auto simp: AddPhoto_present GetPhotos_update dest: GetPhotos_normalized)
next
  case False
  have "bucket_ok (sort_outer (GetPhotosByCounter lb idx c
          @ [new_photo relPath fullPath date sz hash userComment]) 0)"
    using inv [of c] False by (intro bucket_ok_sorted_append) (simp_all add: new_photo_def)
  then show ?thesis
    using inv [of I] False by (simp add: AddPhoto_absent Let_def GetPhotos_update)
qed

lemma run_calls_preserves:
  "(\<And>I. bucket_ok (GetPhotosByCounter lb (fst st) I)) \<Longrightarrow>
   bucket_ok (GetPhotosByCounter lb (fst (run_calls lb calls st)) I)"
proof (induction calls arbitrary: st I)
  case Nil
  then show ?case by (simp add: run_calls_def)
next
  case (Cons c calls)
  have step: "bucket_ok (GetPhotosByCounter lb (fst (apply_call lb c st)) J)" for J
    unfolding apply_call_def
    using AddPhoto_preserves [of lb "fst st", OF Cons.prems] by simp
  have "bucket_ok (GetPhotosByCounter lb (fst (run_calls lb calls (apply_call lb c st))) I)"
    by (rule Cons.IH) (rule step)
  then show ?case by (simp add: run_calls_def)
qed

text \<open>
  C4. After any sequence of \<open>AddPhoto\<close> calls from the empty index, whether or not
  the file could be written at each of them, every bucket that \<open>GetPhotosByCounter\<close>
  returns is sorted by date, newest first, and has no two records with the same relative
  path; and every single \<open>AddPhoto\<close> preserves this.
\<close>

theorem buckets_sorted_and_distinct:
  "bucket_ok (GetPhotosByCounter lb (fst (run_calls lb calls (empty_index, d0))) I)
   \<and> ((\<forall>J. bucket_ok (GetPhotosByCounter lb idx J)) \<longrightarrow>
      (\<forall>J. bucket_ok (GetPhotosByCounter lb
          (fst (snd (AddPhoto lb c relPath fullPath date sz hash userComment (idx, d)))) J)))"
proof
  show "bucket_ok (GetPhotosByCounter lb (fst (run_calls lb calls (empty_index, d0))) I)"
    by (rule run_calls_preserves)
      (simp add: empty_index_def GetPhotosByCounter_def bucket_ok_Nil)
  show "(\<forall>J. bucket_ok (GetPhotosByCounter lb idx J)) \<longrightarrow>
      (\<forall>J. bucket_ok (GetPhotosByCounter lb
          (fst (snd (AddPhoto lb c relPath fullPath date sz hash userComment (idx, d)))) J))"
    using AddPhoto_preserves [of lb idx] by blast
qed

theorem buckets_sorted_and_distinct_witness:
  "bucket_ok (GetPhotosByCounter example_lib
       (fst (run_calls example_lib example_calls (empty_index, readonly_disk))) [97, 98, 49, 50])
   \<and> map Date (GetPhotosByCounter example_lib
       (fst (run_calls example_lib example_calls (empty_index, readonly_disk))) [97, 98, 49, 50])
     = [9, 7, 5]
   \<and> (\<forall>J. bucket_ok (GetPhotosByCounter example_lib empty_index J))
   \<and> (\<forall>J. bucket_ok (GetPhotosByCounter example_lib
         (fst (snd (AddPhoto example_lib [65, 66, 45, 49, 50] ''p1.jpg'' ''/photos/p1.jpg'' 5 100
                      ''h1'' [] (empty_index, readonly_disk)))) J))"
proof -
  have dates: "map Date (GetPhotosByCounter example_lib
       (fst (run_calls example_lib example_calls (empty_index, readonly_disk))) [97, 98, 49, 50])
     = [9, 7, 5]"
    by code_simp
  have inv: "\<forall>J. bucket_ok (GetPhotosByCounter example_lib empty_index J)"
    by (simp add: GetPhotosByCounter_def empty_index_def bucket_ok_def)
  from buckets_sorted_and_distinct [where lb = example_lib and calls = example_calls
      and ?d0.0 = readonly_disk and I = "[97, 98, 49, 50]" and idx = empty_index
      and c = "[65, 66, 45, 49, 50]" and relPath = "''p1.jpg''"
      and fullPath = "''/photos/p1.jpg''" and date = 5 and sz = 100 and hash = "''h1''"
      and userComment = "[]" and d = readonly_disk] dates inv
  show ?thesis by blast
qed

text \<open>
  C7. \<open>SyncHandler\<close> with a missing token, an unknown token or no photo part, and
  \<open>InitHandler\<close> with a missing or unknown token, answer with an error and leave the
  sessions, the hash table, the index and the index file as they were.
\<close>

theorem client_errors_change_nothing:
  "(req_token req = [] \<or> sessionStore st (req_token req) = None \<or> req_photo req = NoPhoto \<longrightarrow>
      is_error (fst (SyncHandler e req st)) \<and> snd (SyncHandler e req st) = st)
   \<and> (token = [] \<or> sessionStore st token = None \<longrightarrow>
      is_error (fst (InitHandler e token body st)) \<and> snd (InitHandler e token body st) = st)"
  by (auto simp: SyncHandler_def InitHandler_def is_error_def Get_def Update_def Let_def
      split: option.splits)

theorem client_errors_change_nothing_witness:
  "is_error (fst (SyncHandler example_env ((photo_request ''x'')\<lparr>req_token := []\<rparr>) started))
   \<and> snd (SyncHandler example_env ((photo_request ''x'')\<lparr>req_token := []\<rparr>) started) = started
   \<and> sessionStore started ''t2'' = None
   \<and> is_error (fst (SyncHandler example_env ((photo_request ''x'')\<lparr>req_token := ''t2''\<rparr>) started))
   \<and> snd (SyncHandler example_env ((photo_request ''x'')\<lparr>req_token := ''t2''\<rparr>) started) = started
   \<and> sessionStore started ''t1'' \<noteq> None
   \<and> is_error (fst (SyncHandler example_env ((photo_request ''x'')\<lparr>req_photo := NoPhoto\<rparr>) started))
   \<and> snd (SyncHandler example_env ((photo_request ''x'')\<lparr>req_photo := NoPhoto\<rparr>) started) = started
   \<and> is_error (fst (InitHandler example_env [] (Some 3) started))
   \<and> snd (InitHandler example_env [] (Some 3) started) = started
   \<and> is_error (fst (InitHandler example_env ''t2'' (Some 3) started))
   \<and> snd (InitHandler example_env ''t2'' (Some 3) started) = started"
proof -
  have t2: "sessionStore started ''t2'' = None"
    by (simp add: started_def StartHandler_def Create_def empty_server_def)
  have t1: "sessionStore started ''t1'' \<noteq> None"
    by (simp add: started_def StartHandler_def Create_def empty_server_def)
  have r1: "req_token ((photo_request ''x'')\<lparr>req_token := []\<rparr>) = []" by simp
  have r2: "req_token ((photo_request ''x'')\<lparr>req_token := ''t2''\<rparr>) = ''t2''" by simp
  have r3: "req_photo ((photo_request ''x'')\<lparr>req_photo := NoPhoto\<rparr>) = NoPhoto" by simp
  from client_errors_change_nothing
      [where req = "(photo_request ''x'')\<lparr>req_token := []\<rparr>" and st = started
         and token = "[]" and e = example_env and body = "Some 3"]
    client_errors_change_nothing
      [where req = "(photo_request ''x'')\<lparr>req_token := ''t2''\<rparr>" and st = started
         and token = "''t2''" and e = example_env and body = "Some 3"]
    client_errors_change_nothing
      [where req = "(photo_request ''x'')\<lparr>req_photo := NoPhoto\<rparr>" and st = started
         and token = "[]" and e = example_env and body = "Some 3"]
    t1 t2 r1 r2 r3
  show ?thesis by metis
qed

section \<open>The comment scanner and the runs of a payload\<close>
































text \<open>
  The loop conditions \<open>i < len(dataStr)-10\<close> and \<open>i < len(dataStr)-8\<close> end the scan one
  position early, although the comments of \<open>findUserComment\<close> ask for runs of 10 or more
  and of 8 or more characters: a run of exactly ten bytes that ends the payload is not
  looked at, and neither is a run of exactly eight. One byte after the run, or one byte
  more in it, and the run is found.
\<close>

lemma run_at_end_of_payload:
  "first_run (Exif_header @ ''ABC1234567'') = ''ABC1234567''
   \<and> extractUserCommentFromEXIF
       ([CHR 0xFF, CHR 0xD8] @ segment (CHR 0xE1) (Exif_header @ ''ABC1234567'')) = Comment []
   \<and> extractUserCommentFromEXIF
       ([CHR 0xFF, CHR 0xD8] @ segment (CHR 0xE1) (Exif_header @ ''ABC1234567'' @ [CHR 0x00]))
     = Comment ''ABC1234567''
   \<and> extractUserCommentFromEXIF
       ([CHR 0xFF, CHR 0xD8] @ segment (CHR 0xE1) (Exif_header @ ''ABC12345678''))
     = Comment ''ABC12345678''
   \<and> first_run (Exif_header @ ''AB123456'') = ''AB123456''
   \<and> extractUserCommentFromEXIF
       ([CHR 0xFF, CHR 0xD8] @ segment (CHR 0xE1) (Exif_header @ ''AB123456'')) = Comment []"
  by code_simp

section \<open>Saving and reloading the index\<close>

lemma record_survives:
  assumes "survives_json lb p"
  shows "photo_of lb now (\<lambda>key. map_option json_Unmarshal_value
            (map_option json_Marshal_value (photoMap_of lb p key))) = p"
proof -
  from assms have sz: "int64_of_float64 (real_of_int (float64_of_int (Size p))) = Size p"
    by (simp add: survives_json_def float64_exact int64_of_exact)
  show ?thesis
  proof (cases "UserComment p = []")
    case True
    with assms sz show ?thesis
      by (simp add: survives_json_def photo_of_def photoMap_of_def getString_def getInt64_def
          json_Marshal_value_def json_Unmarshal_value_def)
  next
    case False
    with assms sz show ?thesis
      by (simp add: survives_json_def photo_of_def photoMap_of_def getString_def getInt64_def
          json_Marshal_value_def json_Unmarshal_value_def)
  qed
qed

lemma bucket_survives:
  "list_all (survives_json lb) ps \<Longrightarrow>
   map (photo_of lb now) (map (\<lambda>obj key. map_option json_Unmarshal_value (obj key))
     (map (\<lambda>photoMap key. map_option json_Marshal_value (photoMap key))
        (map (photoMap_of lb) ps))) = ps"
  by (induction ps) (simp_all add: record_survives)

text \<open>
  C5, as amended. When the file can be written and every record of the index survives the
  JSON file (its date is reproduced by \<open>Time.Format\<close> and \<open>time.Parse\<close>, its strings
  are valid UTF-8, its size is below \<open>2 ^ 53\<close> in magnitude), saving the index and
  loading the file into a new indexer gives the same index: the same buckets, with the
  same records in the same order.
\<close>

theorem save_then_load:
  assumes "writable d"
    and "\<forall>counter. list_all (survives_json lb)
           (case index idx counter of None \<Rightarrow> [] | Some photos \<Rightarrow> photos)"
  shows "reload lb now idx d = idx"
proof -
  have "index (reload lb now idx d) counter = index idx counter" for counter
  proof (cases "index idx counter")
    case None
    with assms(1) show ?thesis
      by (simp add: reload_def NewIndexer_def loadIndex_def saveIndex_def json_Marshal_def
          json_Unmarshal_def)
  next
    case (Some ps)
    with assms(2) have "list_all (survives_json lb) ps"
      by (metis option.simps(5))
    from bucket_survives [OF this, of now] Some assms(1) show ?thesis
      by (simp add: reload_def NewIndexer_def loadIndex_def saveIndex_def json_Marshal_def
          json_Unmarshal_def)
  qed
  then have "index (reload lb now idx d) = index idx" by (rule ext)
  moreover have "indexDir (reload lb now idx d) = indexDir idx"
    by (simp add: reload_def NewIndexer_def loadIndex_def split: indexfile.splits)
  ultimately show ?thesis by simp
qed

theorem save_then_load_witness:
  "writable writable_disk
   \<and> (\<forall>counter. list_all (survives_json jan1_lib)
         (case index spec_index counter of None \<Rightarrow> [] | Some photos \<Rightarrow> photos))
   \<and> reload jan1_lib 0 spec_index writable_disk = spec_index"
proof -
  have w: "writable writable_disk" by (simp add: writable_disk_def)
  have p: "survives_json jan1_lib spec_photo" by code_simp
  have a: "\<forall>counter. list_all (survives_json jan1_lib)
         (case index spec_index counter of None \<Rightarrow> [] | Some photos \<Rightarrow> photos)"
    using p by (simp add: spec_index_def)
  from save_then_load [OF w a, of 0] w a show ?thesis by (intro conjI)
qed

text \<open>
  C5 as stated fails on \<open>lossy_index\<close>, whose two dates are reproduced: after the
  reload the byte \<open>0xD0\<close> of the comment is the replacement character, and the size
  \<open>2 ^ 53 + 1\<close> is \<open>2 ^ 53\<close>.
\<close>

theorem reload_changes_records:
  "Parse_RFC3339 jan1_lib (Format_RFC3339 jan1_lib jan1) = Some jan1
   \<and> map_option (map (\<lambda>p. (Path p, Date p, Size p, UserComment p)))
       (index lossy_index abc123)
     = Some [(''p1.jpg'', jan1, 100, CHR ''N'' # CHR 0xD0 # ''12345678''),
             (''p2.jpg'', jan1, 9007199254740993, [])]
   \<and> map_option (map (\<lambda>p. (Path p, Date p, Size p, UserComment p)))
       (index (reload jan1_lib 0 lossy_index writable_disk) abc123)
     = Some [(''p1.jpg'', jan1, 100, CHR ''N'' # CHR 0xEF # CHR 0xBF # CHR 0xBD # ''12345678''),
             (''p2.jpg'', jan1, 9007199254740992, [])]"
  by code_simp

end
